theory Spec2Isabelle
  imports Main "HOL-Library.Multiset"
begin

section \<open>Data model of the Diophantine system solver\<close>

text \<open>
  The solver of \<^verbatim>\<open>DiophantineSystem\<close> works on C++ \<^verbatim>\<open>int\<close> values, which are
  32 bits wide. They are modelled as integers, and the result of an operation that can
  leave the 32-bit range is passed through \<open>wrap\<close>, which reduces it modulo \<open>2^32\<close> into
  that range as the compiled program does. All of declaration and precomputation is
  modelled that way. The search works on values between \<open>0\<close> and the largest column
  sum; its arithmetic is written without \<open>wrap\<close>, and the properties of the search are
  stated for systems whose sums and products fit 32 bits. Positions in a vector (a row's
  name, an entry of \<^verbatim>\<open>rowPermute\<close>) are natural numbers.

  A call can end in three ways besides returning: a failed \<^verbatim>\<open>Assert\<close>, a read or
  write outside a vector, and a loop that never ends. The first two are values of type
  \<open>fault\<close>; a fallible function returns \<open>fault + 'a\<close>. The loops whose termination
  depends on the state return an \<open>option\<close> around that, with \<open>None\<close> for a run that
  does not return.
\<close>

datatype fault = AssertFailed string | OutOfBounds string

definition wrap :: "int \<Rightarrow> int" where
  "wrap x = (x + 2147483648) mod 4294967296 - 2147483648"

record Select =
  base :: int
  extra :: int
  maxExtra :: int

text \<open>The fields \<^verbatim>\<open>min\<close> and \<^verbatim>\<open>max\<close> of the source's \<^verbatim>\<open>Soluble\<close>
  are named \<open>min_s\<close> and \<open>max_s\<close> here.\<close>

record Soluble =
  min_s :: int
  max_s :: int

record Row =
  name :: nat
  coeff :: int
  minSize :: int
  maxSize :: int
  minProduct :: int
  maxProduct :: int
  minLeave :: int
  maxLeave :: int
  currentSize :: int
  currentMaxSize :: int
  selection :: "Select list"
  soluble :: "Soluble list"

record DiophantineSystem =
  rows :: "Row list"
  columns :: "int list"
  rowPermute :: "nat list"
  columnSum :: int
  maxColumnValue :: int
  closed :: bool
  complex :: bool
  failed :: bool

text \<open>Modelled from the spec: the header that declares the sentinels \<^verbatim>\<open>UNBOUNDED\<close>
  and \<^verbatim>\<open>INSOLUBLE\<close> is not among the sources. The spec calls \<^verbatim>\<open>UNBOUNDED\<close> a
  distinguished value among the nonnegative 32-bit integers (the largest one is taken), and
  \<^verbatim>\<open>precompute\<close> tests a \<^verbatim>\<open>min\<close> entry for insolubility with \<^verbatim>\<open>< 0\<close>,
  so \<^verbatim>\<open>INSOLUBLE\<close> is negative (\<open>-1\<close> is taken).\<close>

definition UNBOUNDED :: int where
  "UNBOUNDED = 2147483647"

definition INSOLUBLE :: int where
  "INSOLUBLE = - 1"

text \<open>Modelled from the spec: \<^verbatim>\<open>ceilingDivision\<close> and \<^verbatim>\<open>floorDivision\<close> are
  declared outside the sources; the spec writes them as the ceiling and the floor of the
  quotient. Every call divides by a row coefficient.\<close>

definition floorDivision :: "int \<Rightarrow> int \<Rightarrow> int" where
  "floorDivision dividend divisor = dividend div divisor"

definition ceilingDivision :: "int \<Rightarrow> int \<Rightarrow> int" where
  "ceilingDivision dividend divisor = - ((- dividend) div divisor)"

definition zeroSelect :: Select where
  "zeroSelect = \<lparr>base = 0, extra = 0, maxExtra = 0\<rparr>"

definition zeroSoluble :: Soluble where
  "zeroSoluble = \<lparr>min_s = 0, max_s = 0\<rparr>"

definition newRow :: Row where
  "newRow = \<lparr>name = 0, coeff = 0, minSize = 0, maxSize = 0, minProduct = 0, maxProduct = 0,
     minLeave = 0, maxLeave = 0, currentSize = 0, currentMaxSize = 0,
     selection = [], soluble = []\<rparr>"

text \<open>The constructor.\<close>

definition newSystem :: DiophantineSystem where
  "newSystem = \<lparr>rows = [], columns = [], rowPermute = [], columnSum = 0, maxColumnValue = 0,
     closed = False, complex = False, failed = False\<rparr>"

text \<open>\<^verbatim>\<open>resize\<close> of a vector: it keeps the first \<open>n\<close> elements and fills with
  value-initialised ones.\<close>

definition resize :: "'a \<Rightarrow> nat \<Rightarrow> 'a list \<Rightarrow> 'a list" where
  "resize d n xs = take n xs @ replicate (n - length xs) d"

section \<open>Declaring rows and columns\<close>

definition insertRow :: "int \<Rightarrow> int \<Rightarrow> int \<Rightarrow> DiophantineSystem \<Rightarrow> fault + DiophantineSystem" where
  "insertRow c lo hi s =
     (if closed s then Inl (AssertFailed ''system closed'')
      else if \<not> c > 0 then Inl (AssertFailed ''bad row coefficient'')
      else if \<not> lo \<ge> 0 then Inl (AssertFailed ''negative minSize'')
      else if \<not> lo \<le> hi then Inl (AssertFailed ''minSize > maxSize'')
      else Inr (s\<lparr>rows := rows s @
             [newRow\<lparr>name := length (rows s), coeff := c, minSize := lo, maxSize := hi\<rparr>]\<rparr>))"

definition insertColumn :: "int \<Rightarrow> DiophantineSystem \<Rightarrow> fault + DiophantineSystem" where
  "insertColumn v s =
     (if \<not> v > 0 then Inl (AssertFailed ''bad column value'')
      else if closed s then Inl (AssertFailed ''system closed'')
      else Inr (s\<lparr>columns := columns s @ [v], columnSum := wrap (columnSum s + v),
             maxColumnValue := (if v > maxColumnValue s then v else maxColumnValue s)\<rparr>))"

text \<open>A system declared by a caller: the rows \<open>(coeff, minSize, maxSize)\<close> inserted in
  order, then the columns.\<close>

fun insertRows :: "(int \<times> int \<times> int) list \<Rightarrow> DiophantineSystem \<Rightarrow> fault + DiophantineSystem" where
  "insertRows [] s = Inr s"
| "insertRows ((c, lo, hi) # rs) s =
     (case insertRow c lo hi s of Inl e \<Rightarrow> Inl e | Inr s' \<Rightarrow> insertRows rs s')"

fun insertColumns :: "int list \<Rightarrow> DiophantineSystem \<Rightarrow> fault + DiophantineSystem" where
  "insertColumns [] s = Inr s"
| "insertColumns (v # vs) s =
     (case insertColumn v s of Inl e \<Rightarrow> Inl e | Inr s' \<Rightarrow> insertColumns vs s')"

definition declare_system :: "(int \<times> int \<times> int) list \<Rightarrow> int list \<Rightarrow> fault + DiophantineSystem" where
  "declare_system rs cs =
     (case insertRows rs newSystem of Inl e \<Rightarrow> Inl e | Inr s \<Rightarrow> insertColumns cs s)"

section \<open>Precomputation\<close>

subsection \<open>Sorting the rows\<close>

definition rowLt :: "Row \<Rightarrow> Row \<Rightarrow> bool" where
  "rowLt i j =
     (let t = wrap (coeff i - coeff j) in
      if t \<noteq> 0 then t < 0 else wrap (maxSize i - maxSize j) < 0)"

text \<open>\<^verbatim>\<open>sort(rows.begin(), rows.end(), rowLt)\<close> arranges the rows so that no row is
  \<open>rowLt\<close> an earlier one. The library leaves the order of rows that compare equivalent
  open; the model is the insertion sort that keeps them in insertion order.\<close>

fun insertSorted :: "Row \<Rightarrow> Row list \<Rightarrow> Row list" where
  "insertSorted r [] = [r]"
| "insertSorted r (x # xs) = (if rowLt x r then x # insertSorted r xs else r # x # xs)"

fun sortRows :: "Row list \<Rightarrow> Row list" where
  "sortRows [] = []"
| "sortRows (r # rs) = insertSorted r (sortRows rs)"

subsection \<open>Products, leaves and the permutation\<close>

text \<open>The first loop of \<^verbatim>\<open>precompute\<close>, for one row.\<close>

definition rowProducts :: "int \<Rightarrow> Row \<Rightarrow> Row" where
  "rowProducts cSum r =
     (let r1 = (if maxSize r = UNBOUNDED then r\<lparr>maxSize := cSum\<rparr> else r);
          r2 = r1\<lparr>minProduct := wrap (minSize r1 * coeff r1)\<rparr>
      in r2\<lparr>maxProduct := wrap (maxSize r2 * coeff r2)\<rparr>)"

text \<open>The loop from the last row to the first: the rows after position \<open>i\<close> are handled
  before the row at \<open>i\<close>, and the running totals come back with them.\<close>

fun leaveLoop :: "nat \<Rightarrow> nat \<Rightarrow> Row list \<Rightarrow> nat list \<Rightarrow> Row list \<times> nat list \<times> int \<times> int" where
  "leaveLoop nrColumns i [] p = ([], p, 0, 0)"
| "leaveLoop nrColumns i (r # rs) p =
     (case leaveLoop nrColumns (Suc i) rs p of
        (rs', p', minTotal, maxTotal) \<Rightarrow>
          (r\<lparr>minLeave := minTotal, maxLeave := maxTotal,
             selection := map (\<lambda>s. s\<lparr>base := 0\<rparr>) (resize zeroSelect nrColumns (selection r))\<rparr> # rs',
           p'[name r := i],
           wrap (minTotal + minProduct r),
           wrap (maxTotal + maxProduct r)))"

subsection \<open>Solubility vectors\<close>

definition insolubleEntry :: Soluble where
  "insolubleEntry = \<lparr>min_s = INSOLUBLE, max_s = INSOLUBLE\<rparr>"

definition readSoluble :: "Soluble list \<Rightarrow> int \<Rightarrow> fault + Soluble" where
  "readSoluble s k =
     (if 0 \<le> k \<and> k < int (length s) then Inr (s ! nat k) else Inl (OutOfBounds ''soluble''))"

text \<open>The last row: entries \<open>1..maxColumnValue\<close> are set to insoluble, then the multiples
  of the coefficient are counted up. The position \<open>j\<close> wraps when \<open>j + coeff\<close> leaves
  the 32-bit range, and the write at a negative position is a fault. The count is at most
  the number of positions written, which is less than \<open>2^31\<close>.\<close>

function countMultiples :: "int \<Rightarrow> int \<Rightarrow> int \<Rightarrow> int \<Rightarrow> int \<Rightarrow> Soluble list \<Rightarrow> fault + Soluble list" where
  "countMultiples mcv c mx j cnt s =
     (if j \<le> mcv \<and> cnt \<le> mx then
        (if 0 \<le> j \<and> j < int (length s)
         then countMultiples mcv c mx (wrap (j + c)) (cnt + 1)
                (s[nat j := \<lparr>min_s = cnt, max_s = cnt\<rparr>])
         else Inl (OutOfBounds ''soluble''))
      else Inr s)"
  by pat_completeness auto
termination
  by (relation "measure (\<lambda>(mcv, c, mx, j, cnt, s). nat (mx + 1 - cnt))") auto

declare countMultiples.simps [simp del]

text \<open>\<^verbatim>\<open>resize(maxColumnValue + 1)\<close>: the length wraps like every sum, and a vector
  has no negative length.\<close>

definition resizeSoluble :: "int \<Rightarrow> Soluble list \<Rightarrow> fault + Soluble list" where
  "resizeSoluble mcv s =
     (if wrap (mcv + 1) < 0 then Inl (OutOfBounds ''soluble'')
      else Inr (resize zeroSoluble (nat (wrap (mcv + 1))) s))"

definition lastSoluble :: "int \<Rightarrow> Row \<Rightarrow> fault + Soluble list" where
  "lastSoluble mcv r =
     (case resizeSoluble mcv (soluble r) of Inl e \<Rightarrow> Inl e
      | Inr s \<Rightarrow>
         (let s1 = (case s of [] \<Rightarrow> [] | x # xs \<Rightarrow> x # map (\<lambda>_. insolubleEntry) xs)
          in countMultiples mcv (coeff r) (maxSize r) 0 0 s1))"

text \<open>The scan \<^verbatim>\<open>for(k = j - maxSize * coeff; prev[k].min == INSOLUBLE; k += coeff) --newMax\<close>.
  With a coefficient that is not positive the scan of the source need not end; every row
  has a positive coefficient (\<^verbatim>\<open>insertRow\<close> asserts it), and the model stops with
  a fault otherwise. A position \<open>k + coeff\<close> beyond the 32-bit range is outside the vector
  whether it wraps or not, so the sum is written as it is; \<open>newMax\<close> is lowered once for
  each position read and stays within the range.\<close>

function scanNewMax :: "Soluble list \<Rightarrow> int \<Rightarrow> int \<Rightarrow> int \<Rightarrow> fault + int" where
  "scanNewMax prev c k newMax =
     (if \<not> c > 0 then Inl (AssertFailed ''bad row coefficient'')
      else if 0 \<le> k \<and> k < int (length prev) then
        (if min_s (prev ! nat k) = INSOLUBLE then scanNewMax prev c (k + c) (newMax - 1)
         else Inr newMax)
      else Inl (OutOfBounds ''soluble''))"
  by pat_completeness auto
termination
  by (relation "measure (\<lambda>(prev, c, k, newMax). nat (int (length prev) - k))") auto

declare scanNewMax.simps [simp del]

text \<open>The body of the loop over \<open>j\<close> for a row that is not the last: the entry
  \<open>next[j]\<close>, from \<open>prev\<close> and the entries of \<open>next\<close> below \<open>j\<close>.\<close>

definition nextEntry :: "Soluble list \<Rightarrow> Soluble list \<Rightarrow> int \<Rightarrow> int \<Rightarrow> int \<Rightarrow> fault + Soluble" where
  "nextEntry prev nxt c mx j =
     (case readSoluble prev j of Inl e \<Rightarrow> Inl e | Inr pj \<Rightarrow>
      (let t = j - c;
           noCopy = (if min_s pj = INSOLUBLE then insolubleEntry else zeroSoluble)
       in if t \<ge> 0 then
            (case readSoluble nxt t of Inl e \<Rightarrow> Inl e | Inr nt \<Rightarrow>
               if min_s nt \<noteq> INSOLUBLE \<and> min_s nt < mx then
                 (let mn = (if min_s pj = INSOLUBLE then min_s nt + 1 else 0) in
                  if max_s nt < mx then Inr \<lparr>min_s = mn, max_s = max_s nt + 1\<rparr>
                  else
                    (case scanNewMax prev c (wrap (j - wrap (mx * c))) mx of Inl e \<Rightarrow> Inl e
                     | Inr newMax \<Rightarrow>
                         if newMax \<ge> min_s nt + 1 then Inr \<lparr>min_s = mn, max_s = newMax\<rparr>
                         else Inl (AssertFailed ''bad newMax'')))
               else Inr noCopy)
          else Inr noCopy))"

function fillNext :: "Soluble list \<Rightarrow> int \<Rightarrow> int \<Rightarrow> int \<Rightarrow> int \<Rightarrow> Soluble list \<Rightarrow> fault + Soluble list" where
  "fillNext prev c mx mcv j nxt =
     (if j \<le> mcv then
        (case nextEntry prev nxt c mx j of Inl e \<Rightarrow> Inl e
         | Inr en \<Rightarrow>
            (if 0 \<le> j \<and> j < int (length nxt) then fillNext prev c mx mcv (j + 1) (nxt[nat j := en])
             else Inl (OutOfBounds ''soluble'')))
      else Inr nxt)"
  by pat_completeness auto
termination
  by (relation "measure (\<lambda>(prev, c, mx, mcv, j, nxt). nat (mcv + 1 - j))") auto

declare fillNext.simps [simp del]

text \<open>\<^verbatim>\<open>buildSolubilityVectors\<close>: the vector of the last row first, then the others
  in descending order, each from the vector of the row after it.\<close>

fun buildRows :: "int \<Rightarrow> Row list \<Rightarrow> fault + Row list" where
  "buildRows mcv [] = Inl (OutOfBounds ''rows'')"
| "buildRows mcv [r] =
     (case lastSoluble mcv r of Inl e \<Rightarrow> Inl e | Inr s \<Rightarrow> Inr [r\<lparr>soluble := s\<rparr>])"
| "buildRows mcv (r # r' # rs) =
     (case buildRows mcv (r' # rs) of Inl e \<Rightarrow> Inl e
      | Inr rs' \<Rightarrow>
         (case resizeSoluble mcv (soluble r) of Inl e \<Rightarrow> Inl e
          | Inr nxt \<Rightarrow>
             (case fillNext (soluble (hd rs')) (coeff r) (maxSize r) mcv 0 nxt of
                Inl e \<Rightarrow> Inl e
              | Inr s \<Rightarrow> Inr (r\<lparr>soluble := s\<rparr> # rs'))))"

definition buildSolubilityVectors :: "DiophantineSystem \<Rightarrow> fault + DiophantineSystem" where
  "buildSolubilityVectors s =
     (case buildRows (maxColumnValue s) (rows s) of Inl e \<Rightarrow> Inl e
      | Inr rs \<Rightarrow> Inr (s\<lparr>rows := rs\<rparr>))"

subsection \<open>precompute\<close>

text \<open>The check of every column value against the vector of row 0.\<close>

fun columnsSoluble :: "Soluble list \<Rightarrow> int list \<Rightarrow> fault + bool" where
  "columnsSoluble sol [] = Inr True"
| "columnsSoluble sol (v # vs) =
     (case readSoluble sol v of Inl e \<Rightarrow> Inl e
      | Inr e \<Rightarrow> if min_s e < 0 then Inr False else columnsSoluble sol vs)"

text \<open>The first part: the system is closed and the first loop runs over the rows. The
  two sums of that loop are accumulated in 32 bits.\<close>

definition wrapSum :: "int list \<Rightarrow> int" where
  "wrapSum xs = foldl (\<lambda>a x. wrap (a + x)) 0 xs"

definition totals :: "DiophantineSystem \<Rightarrow> DiophantineSystem" where
  "totals s0 = (s0\<lparr>closed := True\<rparr>)\<lparr>rows := map (rowProducts (columnSum s0)) (rows s0)\<rparr>"

text \<open>The part after the check of the totals: the sort and the loop from the last row
  to the first.\<close>

definition arrange :: "DiophantineSystem \<Rightarrow> DiophantineSystem" where
  "arrange s2 =
     (case leaveLoop (length (columns s2)) 0 (sortRows (rows s2))
             (resize 0 (length (rows s2)) (rowPermute s2)) of
        (rs3, p, minTotal, maxTotal) \<Rightarrow> s2\<lparr>rows := rs3, rowPermute := p\<rparr>)"

definition precompute :: "DiophantineSystem \<Rightarrow> fault + (bool \<times> DiophantineSystem)" where
  "precompute s0 =
     (if \<not> length (rows s0) > 0 then Inl (AssertFailed ''no rows'')
      else if \<not> length (columns s0) > 0 then Inl (AssertFailed ''no columns'')
      else
        (let s2 = totals s0;
             sumOfMinProducts = wrapSum (map minProduct (rows s2));
             sumOfMaxProducts = wrapSum (map maxProduct (rows s2))
         in if sumOfMinProducts > columnSum s2 \<or> sumOfMaxProducts < columnSum s2
            then Inr (False, s2\<lparr>failed := True\<rparr>)
            else
              (let s3 = arrange s2 in
               if coeff (last (rows s3)) > 1 \<or> maxSize (last (rows s3)) < maxColumnValue s3
               then
                 (case buildSolubilityVectors s3 of Inl e \<Rightarrow> Inl e
                  | Inr s4 \<Rightarrow>
                     (case columnsSoluble (soluble (hd (rows s4))) (columns s4) of
                        Inl e \<Rightarrow> Inl e
                      | Inr ok \<Rightarrow>
                          if ok then Inr (True, s4\<lparr>complex := True\<rparr>)
                          else Inr (False, s4\<lparr>failed := True\<rparr>)))
               else Inr (True, s3))))"

section \<open>Viability\<close>

text \<open>The inner loop of \<^verbatim>\<open>viable\<close>: whether the columns of value at least
  \<open>lowerLimit\<close>, added up in order, reach \<open>target\<close>.\<close>

fun reachesSum :: "int \<Rightarrow> int \<Rightarrow> int \<Rightarrow> int list \<Rightarrow> bool" where
  "reachesSum lowerLimit target localColumnSum [] = False"
| "reachesSum lowerLimit target localColumnSum (c # cs) =
     (if c \<ge> lowerLimit then
        (if localColumnSum + c \<ge> target then True
         else reachesSum lowerLimit target (localColumnSum + c) cs)
      else reachesSum lowerLimit target localColumnSum cs)"

fun viableLoop :: "int list \<Rightarrow> int \<Rightarrow> Row list \<Rightarrow> bool" where
  "viableLoop cols localSumOfMinProducts [] = True"
| "viableLoop cols localSumOfMinProducts (r # rs) =
     (if minProduct r > 0 then
        (if reachesSum (coeff r) (localSumOfMinProducts + minProduct r) 0 cols
         then viableLoop cols (localSumOfMinProducts + minProduct r) rs
         else False)
      else viableLoop cols localSumOfMinProducts rs)"

text \<open>The rows \<open>row_idx .. nrRows - 2\<close> are the rows from \<open>row_idx\<close> on without
  the last one.\<close>

definition viable :: "nat \<Rightarrow> DiophantineSystem \<Rightarrow> bool" where
  "viable row_idx s = viableLoop (columns s) 0 (drop row_idx (butlast (rows s)))"

section \<open>The simple case\<close>

text \<open>The loops of \<^verbatim>\<open>multisetSelect\<close> walk the selection vector and the bag
  side by side, from column 0. The loop at the label \<^verbatim>\<open>forwards\<close> runs while
  \<open>undone > 0\<close>; it asserts that it stays inside the bag.\<close>

fun forwardsSimple :: "int \<Rightarrow> int \<Rightarrow> Select list \<Rightarrow> int list \<Rightarrow> fault + (Select list \<times> int list)" where
  "forwardsSimple c undone (s # ss) (b # bs) =
     (if undone > 0 then
        (let t = min undone (maxExtra s) in
         if t > 0 then
           (case forwardsSimple c (undone - t) ss bs of Inl e \<Rightarrow> Inl e
            | Inr (ss', bs') \<Rightarrow> Inr (s\<lparr>extra := t\<rparr> # ss', (b - t * c) # bs'))
         else
           (case forwardsSimple c undone ss bs of Inl e \<Rightarrow> Inl e
            | Inr (ss', bs') \<Rightarrow> Inr (s # ss', b # bs')))
      else Inr (s # ss, b # bs))"
| "forwardsSimple c undone sel [] =
     (if undone > 0 then Inl (AssertFailed ''overran bag'') else Inr (sel, []))"
| "forwardsSimple c undone [] (b # bs) =
     (if undone > 0 then Inl (OutOfBounds ''selection'') else Inr ([], b # bs))"

text \<open>The scan of a retry ends either at a column whose share was raised (the jump to
  \<^verbatim>\<open>forwards\<close>, with the units still to place) or at the end of the bag.\<close>

datatype scan = Lifted "Select list" "int list" int | Exhausted "Select list" "int list"

fun releaseColumn :: "Select \<Rightarrow> int \<Rightarrow> int \<Rightarrow> scan \<Rightarrow> scan" where
  "releaseColumn s b c (Lifted ss bs u) = Lifted (s\<lparr>extra := 0\<rparr> # ss) ((b + extra s * c) # bs) u"
| "releaseColumn s b c (Exhausted ss bs) = Exhausted (s\<lparr>extra := 0\<rparr> # ss) ((b + extra s * c) # bs)"

fun keepColumn :: "Select \<Rightarrow> int \<Rightarrow> scan \<Rightarrow> scan" where
  "keepColumn s b (Lifted ss bs u) = Lifted (s # ss) (b # bs) u"
| "keepColumn s b (Exhausted ss bs) = Exhausted (s # ss) (b # bs)"

fun backtrackSimple :: "int \<Rightarrow> int \<Rightarrow> Select list \<Rightarrow> int list \<Rightarrow> fault + scan" where
  "backtrackSimple c undone (s # ss) (b # bs) =
     (if \<not> extra s \<le> maxExtra s then Inl (AssertFailed ''extra > maxExtra'')
      else if undone > 0 \<and> extra s < maxExtra s then
        Inr (Lifted (s\<lparr>extra := extra s + 1\<rparr> # ss) ((b - c) # bs) (undone - 1))
      else if extra s > 0 then
        (case backtrackSimple c (undone + extra s) ss bs of Inl e \<Rightarrow> Inl e
         | Inr r \<Rightarrow> Inr (releaseColumn s b c r))
      else
        (case backtrackSimple c undone ss bs of Inl e \<Rightarrow> Inl e
         | Inr r \<Rightarrow> Inr (keepColumn s b r)))"
| "backtrackSimple c undone sel [] = Inr (Exhausted sel [])"
| "backtrackSimple c undone [] (b # bs) = Inl (OutOfBounds ''selection'')"

definition multisetSelect :: "Row \<Rightarrow> int list \<Rightarrow> bool \<Rightarrow> fault + (bool \<times> Row \<times> int list)" where
  "multisetSelect r bag findFirst =
     (if \<not> findFirst then
        (if currentSize r > 0 then
           (case backtrackSimple (coeff r) 0 (selection r) bag of Inl e \<Rightarrow> Inl e
            | Inr (Exhausted sel' bag') \<Rightarrow> Inr (False, r\<lparr>selection := sel'\<rparr>, bag')
            | Inr (Lifted sel' bag' undone) \<Rightarrow>
                (case forwardsSimple (coeff r) undone sel' bag' of Inl e \<Rightarrow> Inl e
                 | Inr (sel'', bag'') \<Rightarrow> Inr (True, r\<lparr>selection := sel''\<rparr>, bag'')))
         else Inr (False, r, bag))
      else
        (case forwardsSimple (coeff r) (currentSize r) (selection r) bag of Inl e \<Rightarrow> Inl e
         | Inr (sel', bag') \<Rightarrow> Inr (True, r\<lparr>selection := sel'\<rparr>, bag')))"

text \<open>\<^verbatim>\<open>solveLastRowSimple\<close>: the last row takes what is left of every column.\<close>

fun takeRest :: "Select list \<Rightarrow> int list \<Rightarrow> fault + Select list" where
  "takeRest (s # ss) (b # bs) =
     (case takeRest ss bs of Inl e \<Rightarrow> Inl e | Inr ss' \<Rightarrow> Inr (s\<lparr>extra := b\<rparr> # ss'))"
| "takeRest sel [] = Inr sel"
| "takeRest [] (b # bs) = Inl (OutOfBounds ''selection'')"

definition setRow :: "nat \<Rightarrow> Row \<Rightarrow> DiophantineSystem \<Rightarrow> DiophantineSystem" where
  "setRow i r s = s\<lparr>rows := (rows s)[i := r]\<rparr>"

definition solveLastRowSimple :: "DiophantineSystem \<Rightarrow> fault + DiophantineSystem" where
  "solveLastRowSimple s =
     (if rows s = [] then Inl (OutOfBounds ''rows'')
      else
        (case takeRest (selection (last (rows s))) (columns s) of Inl e \<Rightarrow> Inl e
         | Inr sel \<Rightarrow> Inr (setRow (length (rows s) - 1) ((last (rows s))\<lparr>selection := sel\<rparr>) s)))"

text \<open>The first loop of \<^verbatim>\<open>solveRowSimple\<close> on a first visit: it clears the
  selection, sets the capacity of every column and adds up the columns and the capacities.
  The quotient is taken only of a column that is at least the (positive) coefficient, where
  the division of C++ is the floor.\<close>

fun capacities :: "int \<Rightarrow> Select list \<Rightarrow> int list \<Rightarrow> fault + (Select list \<times> int \<times> int)" where
  "capacities c (s # ss) (b # bs) =
     (case capacities c ss bs of Inl e \<Rightarrow> Inl e
      | Inr (ss', columnTotal, maxSum) \<Rightarrow>
          (if b \<ge> c then
             Inr (s\<lparr>extra := 0, maxExtra := b div c\<rparr> # ss', columnTotal + b, maxSum + b div c)
           else Inr (s\<lparr>extra := 0, maxExtra := 0\<rparr> # ss', columnTotal + b, maxSum)))"
| "capacities c sel [] = Inr (sel, 0, 0)"
| "capacities c [] (b # bs) = Inl (OutOfBounds ''selection'')"

definition solveRowSimple :: "nat \<Rightarrow> bool \<Rightarrow> DiophantineSystem \<Rightarrow> fault + (bool \<times> DiophantineSystem)" where
  "solveRowSimple row_idx findFirst s =
     (if \<not> row_idx < length (rows s) then Inl (OutOfBounds ''rows'')
      else
        (let r = rows s ! row_idx in
         if findFirst then
           (if \<not> viable row_idx s then Inr (False, s)
            else
              (case capacities (coeff r) (selection r) (columns s) of Inl e \<Rightarrow> Inl e
               | Inr (sel, columnTotal, maxSum) \<Rightarrow>
                  (let r1 = r\<lparr>selection := sel\<rparr>;
                       minSize' = max (minSize r1)
                                    (ceilingDivision (columnTotal - maxLeave r1) (coeff r1));
                       maxSize' = min (min maxSum (maxSize r1))
                                    (floorDivision (columnTotal - minLeave r1) (coeff r1))
                   in if minSize' > maxSize' then Inr (False, setRow row_idx r1 s)
                      else
                        (let r2 = r1\<lparr>currentSize := minSize', currentMaxSize := maxSize'\<rparr> in
                         case multisetSelect r2 (columns s) True of Inl e \<Rightarrow> Inl e
                         | Inr (ok, r3, bag) \<Rightarrow> Inr (ok, (setRow row_idx r3 s)\<lparr>columns := bag\<rparr>)))))
         else
           (case multisetSelect r (columns s) False of Inl e \<Rightarrow> Inl e
            | Inr (ok, r1, bag1) \<Rightarrow>
                if ok then Inr (True, (setRow row_idx r1 s)\<lparr>columns := bag1\<rparr>)
                else if currentSize r1 = currentMaxSize r1
                then Inr (False, (setRow row_idx r1 s)\<lparr>columns := bag1\<rparr>)
                else
                  (let r2 = r1\<lparr>currentSize := currentSize r1 + 1\<rparr> in
                   case multisetSelect r2 bag1 True of Inl e \<Rightarrow> Inl e
                   | Inr (ok', r3, bag3) \<Rightarrow> Inr (ok', (setRow row_idx r3 s)\<lparr>columns := bag3\<rparr>)))))"

text \<open>The loop of the driver. Whether it ends depends on the search, so a run that does
  not return is \<open>None\<close>.\<close>

partial_function (option) solveSimpleLoop ::
  "nat \<Rightarrow> nat \<Rightarrow> bool \<Rightarrow> DiophantineSystem \<Rightarrow> (fault + (bool \<times> DiophantineSystem)) option" where
  "solveSimpleLoop penultimate i findFirst s =
     (case solveRowSimple i findFirst s of Inl e \<Rightarrow> Some (Inl e)
      | Inr (found, s') \<Rightarrow>
          if found then
            (if i = penultimate then Some (Inr (True, s'))
             else solveSimpleLoop penultimate (i + 1) True s')
          else
            (if i = 0 then Some (Inr (False, s'))
             else solveSimpleLoop penultimate (i - 1) False s'))"

definition solveSimple :: "bool \<Rightarrow> DiophantineSystem \<Rightarrow> (fault + (bool \<times> DiophantineSystem)) option" where
  "solveSimple findFirst s =
     (case (if length (rows s) > 1
            then solveSimpleLoop (length (rows s) - 2)
                   (if findFirst then 0 else length (rows s) - 2) findFirst s
            else Some (Inr (findFirst, s))) of
        None \<Rightarrow> None
      | Some (Inl e) \<Rightarrow> Some (Inl e)
      | Some (Inr (found, s')) \<Rightarrow>
          if found then
            (case solveLastRowSimple s' of Inl e \<Rightarrow> Some (Inl e) | Inr s'' \<Rightarrow> Some (Inr (True, s'')))
          else Some (Inr (False, s'\<lparr>failed := True\<rparr>)))"

section \<open>The complex case\<close>

text \<open>The loop at \<^verbatim>\<open>forwards\<close> of \<^verbatim>\<open>multisetComplex\<close> ends with the units
  placed, or stuck at a column whose remainder the next row cannot absorb (the jump to
  \<^verbatim>\<open>backtrack\<close>).\<close>

datatype placing = Placed "Select list" "int list" | Stuck "Select list" "int list"

fun consPlacing :: "Select \<Rightarrow> int \<Rightarrow> placing \<Rightarrow> placing" where
  "consPlacing s b (Placed ss bs) = Placed (s # ss) (b # bs)"
| "consPlacing s b (Stuck ss bs) = Stuck (s # ss) (b # bs)"

fun forwardsComplex :: "Soluble list \<Rightarrow> int \<Rightarrow> int \<Rightarrow> Select list \<Rightarrow> int list \<Rightarrow> fault + placing" where
  "forwardsComplex sol c undone (s # ss) (b # bs) =
     (if undone > 0 then
        (let t = maxExtra s in
         if t \<le> undone then
           (if t > 0 then
              (case forwardsComplex sol c (undone - t) ss bs of Inl e \<Rightarrow> Inl e
               | Inr r \<Rightarrow> Inr (consPlacing (s\<lparr>extra := t\<rparr>) (b - t * c) r))
            else
              (case forwardsComplex sol c undone ss bs of Inl e \<Rightarrow> Inl e
               | Inr r \<Rightarrow> Inr (consPlacing s b r)))
         else
           (case readSoluble sol (b - undone * c) of Inl e \<Rightarrow> Inl e
            | Inr en \<Rightarrow>
                if min_s en = INSOLUBLE
                then Inr (Stuck (s\<lparr>extra := undone\<rparr> # ss) ((b - undone * c) # bs))
                else Inr (Placed (s\<lparr>extra := undone\<rparr> # ss) ((b - undone * c) # bs))))
      else Inr (Placed (s # ss) (b # bs)))"
| "forwardsComplex sol c undone sel [] =
     (if undone > 0 then Inl (AssertFailed ''overran bag'') else Inr (Placed sel []))"
| "forwardsComplex sol c undone [] (b # bs) =
     (if undone > 0 then Inl (OutOfBounds ''selection'') else Inr (Placed [] (b # bs)))"

text \<open>The probe \<^verbatim>\<open>for(e = 1; e <= undone; e++)\<close> at a column with share \<open>t\<close> and
  value \<open>cv\<close>: the first \<open>e\<close> whose remainder the next row can absorb, with that
  remainder.\<close>

function probe :: "Soluble list \<Rightarrow> int \<Rightarrow> int \<Rightarrow> int \<Rightarrow> int \<Rightarrow> int \<Rightarrow> int \<Rightarrow> fault + (int \<times> int) option" where
  "probe sol c t mxe undone e cv =
     (if e \<le> undone then
        (if \<not> t + e \<le> mxe then Inl (AssertFailed ''t + e > maxExtra'')
         else
           (case readSoluble sol (cv - c) of Inl x \<Rightarrow> Inl x
            | Inr en \<Rightarrow>
                if min_s en \<noteq> INSOLUBLE then Inr (Some (e, cv - c))
                else probe sol c t mxe undone (e + 1) (cv - c)))
      else Inr None)"
  by pat_completeness auto
termination
  by (relation "measure (\<lambda>(sol, c, t, mxe, undone, e, cv). nat (undone + 1 - e))") auto

declare probe.simps [simp del]

fun backtrackComplex :: "Soluble list \<Rightarrow> int \<Rightarrow> int \<Rightarrow> Select list \<Rightarrow> int list \<Rightarrow> fault + scan" where
  "backtrackComplex sol c undone (s # ss) (b # bs) =
     (if \<not> extra s \<le> maxExtra s then Inl (AssertFailed ''extra > maxExtra'')
      else
        (case (if undone > 0 \<and> extra s < maxExtra s
               then probe sol c (extra s) (maxExtra s) undone 1 b else Inr None) of
           Inl x \<Rightarrow> Inl x
         | Inr (Some (e, cv)) \<Rightarrow> Inr (Lifted (s\<lparr>extra := extra s + e\<rparr> # ss) (cv # bs) (undone - e))
         | Inr None \<Rightarrow>
             if extra s > 0 then
               (case backtrackComplex sol c (undone + extra s) ss bs of Inl x \<Rightarrow> Inl x
                | Inr r \<Rightarrow> Inr (releaseColumn s b c r))
             else
               (case backtrackComplex sol c undone ss bs of Inl x \<Rightarrow> Inl x
                | Inr r \<Rightarrow> Inr (keepColumn s b r))))"
| "backtrackComplex sol c undone sel [] = Inr (Exhausted sel [])"
| "backtrackComplex sol c undone [] (b # bs) = Inl (OutOfBounds ''selection'')"

text \<open>The two labels jump to each other. Every arrival at \<^verbatim>\<open>backtrack\<close> has
  \<open>undone = 0\<close>; one round is a scan and, after a lift, the loop at
  \<^verbatim>\<open>forwards\<close>.\<close>

partial_function (option) backtrackLoop ::
  "Soluble list \<Rightarrow> int \<Rightarrow> Select list \<Rightarrow> int list \<Rightarrow> (fault + (bool \<times> Select list \<times> int list)) option" where
  "backtrackLoop sol c sel bag =
     (case backtrackComplex sol c 0 sel bag of Inl x \<Rightarrow> Some (Inl x)
      | Inr (Exhausted sel' bag') \<Rightarrow> Some (Inr (False, sel', bag'))
      | Inr (Lifted sel' bag' undone) \<Rightarrow>
          (case forwardsComplex sol c undone sel' bag' of Inl x \<Rightarrow> Some (Inl x)
           | Inr (Placed sel'' bag'') \<Rightarrow> Some (Inr (True, sel'', bag''))
           | Inr (Stuck sel'' bag'') \<Rightarrow> backtrackLoop sol c sel'' bag''))"

definition multisetComplex ::
  "Row \<Rightarrow> int list \<Rightarrow> Soluble list \<Rightarrow> bool \<Rightarrow> (fault + (bool \<times> Select list \<times> int list)) option" where
  "multisetComplex r bag sol findFirst =
     (if \<not> findFirst then
        (if currentSize r > 0 then backtrackLoop sol (coeff r) (selection r) bag
         else Some (Inr (False, selection r, bag)))
      else
        (case forwardsComplex sol (coeff r) (currentSize r) (selection r) bag of
           Inl x \<Rightarrow> Some (Inl x)
         | Inr (Placed sel' bag') \<Rightarrow> Some (Inr (True, sel', bag'))
         | Inr (Stuck sel' bag') \<Rightarrow> backtrackLoop sol (coeff r) sel' bag'))"

text \<open>\<^verbatim>\<open>solveLastRowComplex\<close>: the share of the last row is read from its
  solubility vector.\<close>

fun takeQuotients :: "Soluble list \<Rightarrow> Select list \<Rightarrow> int list \<Rightarrow> fault + Select list" where
  "takeQuotients sol (s # ss) (b # bs) =
     (case readSoluble sol b of Inl x \<Rightarrow> Inl x
      | Inr en \<Rightarrow>
          if min_s en = INSOLUBLE then Inl (AssertFailed ''solubility bug'')
          else
            (case takeQuotients sol ss bs of Inl x \<Rightarrow> Inl x
             | Inr ss' \<Rightarrow> Inr (s\<lparr>extra := min_s en\<rparr> # ss')))"
| "takeQuotients sol sel [] = Inr sel"
| "takeQuotients sol [] (b # bs) = Inl (OutOfBounds ''selection'')"

definition solveLastRowComplex :: "DiophantineSystem \<Rightarrow> fault + DiophantineSystem" where
  "solveLastRowComplex s =
     (if rows s = [] then Inl (OutOfBounds ''rows'')
      else
        (case takeQuotients (soluble (last (rows s))) (selection (last (rows s))) (columns s) of
           Inl x \<Rightarrow> Inl x
         | Inr sel \<Rightarrow> Inr (setRow (length (rows s) - 1) ((last (rows s))\<lparr>selection := sel\<rparr>) s)))"

text \<open>The first loop of a first visit of \<^verbatim>\<open>solveRowComplex\<close>: the base and the
  capacity of every column from the row's own solubility vector, with the totals
  \<open>(columnTotal, minSum, maxSum)\<close>.\<close>

fun bases :: "Soluble list \<Rightarrow> Select list \<Rightarrow> int list \<Rightarrow> fault + (Select list \<times> int \<times> int \<times> int)" where
  "bases sol (s # ss) (b # bs) =
     (case readSoluble sol b of Inl x \<Rightarrow> Inl x
      | Inr en \<Rightarrow>
          if \<not> min_s en \<noteq> INSOLUBLE then Inl (AssertFailed ''min insoluble'')
          else if \<not> max_s en \<noteq> INSOLUBLE then Inl (AssertFailed ''max insoluble'')
          else if \<not> min_s en \<le> max_s en then Inl (AssertFailed ''min > max'')
          else
            (case bases sol ss bs of Inl x \<Rightarrow> Inl x
             | Inr (ss', columnTotal, minSum, maxSum) \<Rightarrow>
                 Inr (s\<lparr>base := min_s en, extra := 0, maxExtra := max_s en - min_s en\<rparr> # ss',
                      columnTotal + b, minSum + min_s en, maxSum + max_s en)))"
| "bases sol sel [] = Inr (sel, 0, 0, 0)"
| "bases sol [] (b # bs) = Inl (OutOfBounds ''selection'')"

text \<open>The bases are taken out of the columns before the search of a row and put back
  when the row finally fails.\<close>

fun subtractBases :: "int \<Rightarrow> Select list \<Rightarrow> int list \<Rightarrow> fault + int list" where
  "subtractBases c (s # ss) (b # bs) =
     (if base s > 0 then
        (if \<not> b - base s * c \<ge> 0 then Inl (AssertFailed ''value -ve'')
         else
           (case subtractBases c ss bs of Inl x \<Rightarrow> Inl x
            | Inr bs' \<Rightarrow> Inr ((b - base s * c) # bs')))
      else
        (case subtractBases c ss bs of Inl x \<Rightarrow> Inl x | Inr bs' \<Rightarrow> Inr (b # bs')))"
| "subtractBases c sel [] = Inr []"
| "subtractBases c [] (b # bs) = Inl (OutOfBounds ''selection'')"

fun restoreBases :: "int \<Rightarrow> int \<Rightarrow> Select list \<Rightarrow> int list \<Rightarrow> fault + int list" where
  "restoreBases mcv c (s # ss) (b # bs) =
     (if base s > 0 then
        (if \<not> b + base s * c \<le> mcv then Inl (AssertFailed ''value too big'')
         else
           (case restoreBases mcv c ss bs of Inl x \<Rightarrow> Inl x
            | Inr bs' \<Rightarrow> Inr ((b + base s * c) # bs')))
      else
        (case restoreBases mcv c ss bs of Inl x \<Rightarrow> Inl x | Inr bs' \<Rightarrow> Inr (b # bs')))"
| "restoreBases mcv c sel [] = Inr []"
| "restoreBases mcv c [] (b # bs) = Inl (OutOfBounds ''selection'')"

text \<open>The loop \<^verbatim>\<open>for(; r.currentSize <= r.currentMaxSize; r.currentSize++)\<close>.\<close>

function sizeLoop ::
  "Soluble list \<Rightarrow> Row \<Rightarrow> int list \<Rightarrow> (fault + (bool \<times> Row \<times> int list)) option" where
  "sizeLoop sol2 r bag =
     (if currentSize r \<le> currentMaxSize r then
        (case multisetComplex r bag sol2 True of
           None \<Rightarrow> None
         | Some (Inl x) \<Rightarrow> Some (Inl x)
         | Some (Inr (ok, sel', bag')) \<Rightarrow>
             if ok then Some (Inr (True, r\<lparr>selection := sel'\<rparr>, bag'))
             else sizeLoop sol2 (r\<lparr>selection := sel', currentSize := currentSize r + 1\<rparr>) bag')
      else Some (Inr (False, r, bag)))"
  by pat_completeness auto
termination
  by (relation "measure (\<lambda>(sol2, r, bag). nat (currentMaxSize r + 1 - currentSize r))") auto

declare sizeLoop.simps [simp del]

text \<open>The end of \<^verbatim>\<open>solveRowComplex\<close>, shared by a first visit and a retry: the loop
  over the sizes and, when no size is left, the bases put back.\<close>

definition searchSizes ::
  "nat \<Rightarrow> Soluble list \<Rightarrow> Row \<Rightarrow> int list \<Rightarrow> DiophantineSystem \<Rightarrow> (fault + (bool \<times> DiophantineSystem)) option" where
  "searchSizes rowNr sol2 r bag s =
     (case sizeLoop sol2 r bag of
        None \<Rightarrow> None
      | Some (Inl x) \<Rightarrow> Some (Inl x)
      | Some (Inr (ok, r', bag')) \<Rightarrow>
          if ok then Some (Inr (True, (setRow rowNr r' s)\<lparr>columns := bag'\<rparr>))
          else
            (case restoreBases (maxColumnValue s) (coeff r') (selection r') bag' of
               Inl x \<Rightarrow> Some (Inl x)
             | Inr bag'' \<Rightarrow> Some (Inr (False, (setRow rowNr r' s)\<lparr>columns := bag''\<rparr>))))"

definition solveRowComplex ::
  "nat \<Rightarrow> bool \<Rightarrow> DiophantineSystem \<Rightarrow> (fault + (bool \<times> DiophantineSystem)) option" where
  "solveRowComplex rowNr findFirst s =
     (if \<not> rowNr + 1 < length (rows s) then Some (Inl (OutOfBounds ''rows''))
      else
        (let r = rows s ! rowNr;
             soluble2 = soluble (rows s ! (rowNr + 1))
         in if findFirst then
              (if \<not> viable rowNr s then Some (Inr (False, s))
               else
                 (case bases (soluble r) (selection r) (columns s) of Inl x \<Rightarrow> Some (Inl x)
                  | Inr (sel, columnTotal, minSum, maxSum) \<Rightarrow>
                     (let r1 = r\<lparr>selection := sel\<rparr>;
                          minSize' = max (max minSum (minSize r1))
                                       (ceilingDivision (columnTotal - maxLeave r1) (coeff r1));
                          maxSize' = min (min maxSum (maxSize r1))
                                       (floorDivision (columnTotal - minLeave r1) (coeff r1))
                      in if minSize' > maxSize' then Some (Inr (False, setRow rowNr r1 s))
                         else
                           (let r2 = r1\<lparr>currentSize := minSize' - minSum,
                                        currentMaxSize := maxSize' - minSum\<rparr> in
                            case subtractBases (coeff r2) (selection r2) (columns s) of
                              Inl x \<Rightarrow> Some (Inl x)
                            | Inr bag \<Rightarrow> searchSizes rowNr soluble2 r2 bag s))))
            else
              (case multisetComplex r (columns s) soluble2 False of
                 None \<Rightarrow> None
               | Some (Inl x) \<Rightarrow> Some (Inl x)
               | Some (Inr (ok, sel', bag')) \<Rightarrow>
                   if ok then Some (Inr (True, (setRow rowNr (r\<lparr>selection := sel'\<rparr>) s)\<lparr>columns := bag'\<rparr>))
                   else searchSizes rowNr soluble2
                          (r\<lparr>selection := sel', currentSize := currentSize r + 1\<rparr>) bag' s)))"

partial_function (option) solveComplexLoop ::
  "nat \<Rightarrow> nat \<Rightarrow> bool \<Rightarrow> DiophantineSystem \<Rightarrow> (fault + (bool \<times> DiophantineSystem)) option" where
  "solveComplexLoop penultimate i findFirst s =
     (case solveRowComplex i findFirst s of
        None \<Rightarrow> None
      | Some (Inl x) \<Rightarrow> Some (Inl x)
      | Some (Inr (found, s')) \<Rightarrow>
          if found then
            (if i = penultimate then Some (Inr (True, s'))
             else solveComplexLoop penultimate (i + 1) True s')
          else
            (if i = 0 then Some (Inr (False, s'))
             else solveComplexLoop penultimate (i - 1) False s'))"

definition solveComplex :: "bool \<Rightarrow> DiophantineSystem \<Rightarrow> (fault + (bool \<times> DiophantineSystem)) option" where
  "solveComplex findFirst s =
     (case (if length (rows s) > 1
            then solveComplexLoop (length (rows s) - 2)
                   (if findFirst then 0 else length (rows s) - 2) findFirst s
            else Some (Inr (findFirst, s))) of
        None \<Rightarrow> None
      | Some (Inl x) \<Rightarrow> Some (Inl x)
      | Some (Inr (found, s')) \<Rightarrow>
          if found then
            (case solveLastRowComplex s' of Inl x \<Rightarrow> Some (Inl x) | Inr s'' \<Rightarrow> Some (Inr (True, s'')))
          else Some (Inr (False, s'\<lparr>failed := True\<rparr>)))"

section \<open>solve and solution\<close>

definition solve :: "DiophantineSystem \<Rightarrow> (fault + (bool \<times> DiophantineSystem)) option" where
  "solve s =
     (let findFirst = \<not> closed s in
      case (if findFirst then precompute s else Inr (True, s)) of
        Inl x \<Rightarrow> Some (Inl x)
      | Inr (ok, s') \<Rightarrow>
          if \<not> ok then Some (Inr (False, s'))
          else if failed s' then Some (Inl (AssertFailed ''attempt to solve failed system''))
          else if complex s' then solveComplex findFirst s'
          else solveSimple findFirst s')"

text \<open>Modelled from the spec: \<^verbatim>\<open>solution(row, column)\<close> is declared in the header, which
  is not among the sources. The spec has it read \<^verbatim>\<open>base + extra\<close> of the column's
  entry in the selection of the row at \<^verbatim>\<open>rowPermute[row]\<close>.\<close>

definition solution :: "DiophantineSystem \<Rightarrow> nat \<Rightarrow> nat \<Rightarrow> fault + int" where
  "solution s row col =
     (if \<not> row < length (rowPermute s) then Inl (OutOfBounds ''rowPermute'')
      else if \<not> rowPermute s ! row < length (rows s) then Inl (OutOfBounds ''rows'')
      else
        (let sel = selection (rows s ! (rowPermute s ! row)) in
         if \<not> col < length sel then Inl (OutOfBounds ''selection'')
         else Inr (base (sel ! col) + extra (sel ! col))))"

section \<open>Notions used to state the properties\<close>

text \<open>While the vector of a row is filled from the vector \<open>prev\<close> of the row after it,
  \<open>k\<close> copies of the row's coefficient \<open>c\<close> fit a column of magnitude \<open>v\<close> when
  \<open>k\<close> is within the row's maximal size and \<open>prev\<close> marks the rest as soluble.\<close>

definition feasibleCount :: "Soluble list \<Rightarrow> int \<Rightarrow> int \<Rightarrow> int \<Rightarrow> int \<Rightarrow> bool" where
  "feasibleCount prev c mx v k =
     (0 \<le> k \<and> k \<le> mx \<and> k * c \<le> v \<and> min_s (prev ! nat (v - k * c)) \<noteq> INSOLUBLE)"

text \<open>An entry records a set of counts, given as a predicate: its \<open>min_s\<close> is the
  least and its \<open>max_s\<close> the greatest count of the set, and both are
  \<^verbatim>\<open>INSOLUBLE\<close> when the set is empty.\<close>

definition entryFor :: "(int \<Rightarrow> bool) \<Rightarrow> Soluble \<Rightarrow> bool" where
  "entryFor P e =
     (if \<exists>k. P k then P (min_s e) \<and> (\<forall>k. P k \<longrightarrow> min_s e \<le> k) \<and> P (max_s e) \<and> (\<forall>k. P k \<longrightarrow> k \<le> max_s e)
      else min_s e = INSOLUBLE \<and> max_s e = INSOLUBLE)"

text \<open>The words of the specification: a completion of the rows \<open>rs\<close> at a column of
  magnitude \<open>v\<close> is a tuple \<open>ks\<close> of counts, one for each row, every count
  nonnegative and at most the row's maximal size, whose products with the coefficients add
  up to \<open>v\<close>. It places \<open>k\<close> copies of the first row's coefficient when its
  first count is \<open>k\<close>.\<close>

definition completion :: "Row list \<Rightarrow> int list \<Rightarrow> int \<Rightarrow> bool" where
  "completion rs ks v =
     (list_all2 (\<lambda>k r. 0 \<le> k \<and> k \<le> maxSize r) ks rs \<and>
      (\<Sum>(k, r)\<leftarrow>zip ks rs. k * coeff r) = v)"

definition placesCopies :: "Row list \<Rightarrow> int \<Rightarrow> int \<Rightarrow> bool" where
  "placesCopies rs v k = (\<exists>ks. completion rs (k # ks) v)"

text \<open>A vector means the rows \<open>rs\<close> when it has an entry for every magnitude
  \<open>0..mcv\<close> and each entry records the counts that the completions of \<open>rs\<close>
  place.\<close>

definition tableMeans :: "int \<Rightarrow> Row list \<Rightarrow> Soluble list \<Rightarrow> bool" where
  "tableMeans mcv rs tbl =
     (int (length tbl) = mcv + 1 \<and>
      (\<forall>v. 0 \<le> v \<and> v \<le> mcv \<longrightarrow> entryFor (placesCopies rs v) (tbl ! nat v)))"

text \<open>The row that \<^verbatim>\<open>insertRow\<close> appends for a triple
  \<open>(coeff, minSize, maxSize)\<close> when \<open>n\<close> rows are there, and the arguments it
  accepts.\<close>

definition declaredRow :: "nat \<Rightarrow> int \<times> int \<times> int \<Rightarrow> Row" where
  "declaredRow n t = (case t of (c, lo, hi) \<Rightarrow> newRow\<lparr>name := n, coeff := c, minSize := lo, maxSize := hi\<rparr>)"

fun declaredRows :: "nat \<Rightarrow> (int \<times> int \<times> int) list \<Rightarrow> Row list" where
  "declaredRows n [] = []"
| "declaredRows n (t # ts) = declaredRow n t # declaredRows (Suc n) ts"

definition validRow :: "int \<times> int \<times> int \<Rightarrow> bool" where
  "validRow t = (case t of (c, lo, hi) \<Rightarrow> c > 0 \<and> 0 \<le> lo \<and> lo \<le> hi)"

text \<open>What the loop from the last row to the first leaves in a row, given the rows
  \<open>later\<close> after it.\<close>

definition arrangedRow :: "nat \<Rightarrow> Row list \<Rightarrow> Row \<Rightarrow> Row" where
  "arrangedRow m later r = r\<lparr>minLeave := wrap (sum_list (map minProduct later)),
      maxLeave := wrap (sum_list (map maxProduct later)),
      selection := map (\<lambda>s. s\<lparr>base := 0\<rparr>) (resize zeroSelect m (selection r))\<rparr>"

fun arrangedRows :: "nat \<Rightarrow> Row list \<Rightarrow> Row list" where
  "arrangedRows m [] = []"
| "arrangedRows m (r # rs) = arrangedRow m rs r # arrangedRows m rs"

text \<open>The arguments of \<^verbatim>\<open>insertRow\<close> and \<^verbatim>\<open>insertColumn\<close> are C++ \<^verbatim>\<open>int\<close>
  values.\<close>

definition int32 :: "int \<Rightarrow> bool" where
  "int32 x = (- 2147483648 \<le> x \<and> x \<le> 2147483647)"

definition int32Args :: "(int \<times> int \<times> int) list \<Rightarrow> int list \<Rightarrow> bool" where
  "int32Args ts vs =
     (list_all (\<lambda>t. case t of (c, lo, hi) \<Rightarrow> int32 c \<and> int32 lo \<and> int32 hi) ts \<and> list_all int32 vs)"

text \<open>The sums that the build of the vectors forms stay within 32 bits when the column
  values add up within 32 bits and so does the largest column value with any coefficient.
  The products of sizes and coefficients may still wrap: the vectors do not read them.\<close>

definition tablesInRange :: "(int \<times> int \<times> int) list \<Rightarrow> int list \<Rightarrow> bool" where
  "tablesInRange ts vs =
     (int32Args ts vs \<and> sum_list vs \<le> 2147483647 \<and>
      list_all (\<lambda>t. fold max vs 0 + fst t \<le> 2147483647) ts)"

text \<open>The two tests of \<^verbatim>\<open>precompute\<close> that lead to the build of the vectors: the check
  of the totals passes, and the last sorted row makes the system complex.\<close>

definition passesTotals :: "DiophantineSystem \<Rightarrow> bool" where
  "passesTotals s0 =
     (\<not> (wrapSum (map minProduct (rows (totals s0))) > columnSum s0 \<or>
         wrapSum (map maxProduct (rows (totals s0))) < columnSum s0))"

definition lastRowComplex :: "DiophantineSystem \<Rightarrow> bool" where
  "lastRowComplex s0 =
     (coeff (last (rows (arrange (totals s0)))) > 1 \<or>
      maxSize (last (rows (arrange (totals s0)))) < maxColumnValue s0)"

definition selOK :: "Select list \<Rightarrow> bool" where
  "selOK sel = (\<forall>s\<in>set sel. 0 \<le> extra s \<and> extra s \<le> maxExtra s)"

definition sumExtra :: "Select list \<Rightarrow> int" where
  "sumExtra sel = sum_list (map extra sel)"

definition sumCap :: "Select list \<Rightarrow> int" where
  "sumCap sel = sum_list (map maxExtra sel)"

definition sumBase :: "Select list \<Rightarrow> int" where
  "sumBase sel = sum_list (map base sel)"

definition putBack :: "int \<Rightarrow> Select list \<Rightarrow> int list \<Rightarrow> int list" where
  "putBack c sel bag = map2 (\<lambda>b s. b + (base s + extra s) * c) bag sel"

definition sameShape :: "Select list \<Rightarrow> Select list \<Rightarrow> bool" where
  "sameShape sel sel' = (map base sel' = map base sel \<and> map maxExtra sel' = map maxExtra sel)"

fun roomFor :: "int \<Rightarrow> Select list \<Rightarrow> bool" where
  "roomFor u [] = (u \<le> 0)"
| "roomFor u (s # ss) = (u \<le> 0 \<or> (extra s = 0 \<and> 0 \<le> maxExtra s \<and> roomFor (u - maxExtra s) ss))"

definition scanOK :: "int \<Rightarrow> int \<Rightarrow> Select list \<Rightarrow> int list \<Rightarrow> scan \<Rightarrow> bool" where
  "scanOK c u sel bag r =
     (case r of
        Exhausted sel' bag' \<Rightarrow>
          length bag' = length bag \<and> sameShape sel sel' \<and> putBack c sel' bag' = putBack c sel bag \<and>
          (\<forall>s\<in>set sel'. extra s = 0)
      | Lifted sel' bag' u' \<Rightarrow>
          length bag' = length bag \<and> sameShape sel sel' \<and> putBack c sel' bag' = putBack c sel bag \<and>
          selOK sel' \<and> 0 \<le> u' \<and> sumExtra sel' + u' = sumExtra sel + u \<and> roomFor (u' - u) sel')"

fun placingSel :: "placing \<Rightarrow> Select list" where
  "placingSel (Placed sel bag) = sel"
| "placingSel (Stuck sel bag) = sel"

fun placingBag :: "placing \<Rightarrow> int list" where
  "placingBag (Placed sel bag) = bag"
| "placingBag (Stuck sel bag) = bag"

definition placedOK :: "int \<Rightarrow> int \<Rightarrow> Select list \<Rightarrow> int list \<Rightarrow> Select list \<Rightarrow> int list \<Rightarrow> bool" where
  "placedOK c u sel bag sel' bag' =
     (length bag' = length bag \<and> sameShape sel sel' \<and> putBack c sel' bag' = putBack c sel bag \<and>
      sumExtra sel' = sumExtra sel + max 0 u \<and> (selOK sel \<longrightarrow> selOK sel'))"

text \<open>What a call of the loop between the two labels leaves, when it returns.\<close>

definition retryOK :: "int \<Rightarrow> Select list \<Rightarrow> int list \<Rightarrow> bool \<Rightarrow> Select list \<Rightarrow> int list \<Rightarrow> bool" where
  "retryOK c sel bag ok sel' bag' =
     (length bag' = length bag \<and> sameShape sel sel' \<and> putBack c sel' bag' = putBack c sel bag \<and>
      (if ok then selOK sel' \<and> sumExtra sel' = sumExtra sel else (\<forall>s\<in>set sel'. extra s = 0)))"

definition allZero :: "Select list \<Rightarrow> bool" where
  "allZero sel = (\<forall>x\<in>set sel. extra x = 0 \<and> 0 \<le> maxExtra x)"

definition tableSane :: "Soluble list \<Rightarrow> bool" where
  "tableSane sol = (\<forall>e\<in>set sol. min_s e = INSOLUBLE \<or> 0 \<le> min_s e)"

definition basesNonneg :: "Select list \<Rightarrow> bool" where
  "basesNonneg sel = (\<forall>x\<in>set sel. 0 \<le> base x)"

definition basesZero :: "Select list \<Rightarrow> bool" where
  "basesZero sel = (\<forall>x\<in>set sel. base x = 0)"

definition before :: "Row \<Rightarrow> int list \<Rightarrow> int list" where
  "before r bag = putBack (coeff r) (selection r) bag"

definition rowActive :: "Row \<Rightarrow> int list \<Rightarrow> bool" where
  "rowActive r B =
     (length (selection r) = length B \<and> selOK (selection r) \<and> basesNonneg (selection r) \<and>
      0 < coeff r \<and> sumExtra (selection r) = currentSize r \<and>
      currentSize r \<le> currentMaxSize r \<and> currentMaxSize r \<le> sumCap (selection r) \<and>
      minSize r \<le> sumBase (selection r) + currentSize r \<and>
      sumBase (selection r) + currentMaxSize r \<le> maxSize r \<and>
      minLeave r \<le> sum_list B - (sumBase (selection r) + currentMaxSize r) * coeff r \<and>
      sum_list B - (sumBase (selection r) + currentSize r) * coeff r \<le> maxLeave r)"

fun activeRows :: "Row list \<Rightarrow> int list \<Rightarrow> bool" where
  "activeRows [] bag = True"
| "activeRows (r # rs) bag = (rowActive r (foldr before (r # rs) bag) \<and> activeRows rs bag)"

definition frozen :: "Row \<Rightarrow> Row" where
  "frozen r = r\<lparr>currentSize := 0, currentMaxSize := 0, selection := []\<rparr>"

definition rest :: "DiophantineSystem \<Rightarrow> DiophantineSystem" where
  "rest s = s\<lparr>rows := [], columns := []\<rparr>"

definition stepped :: "nat \<Rightarrow> DiophantineSystem \<Rightarrow> DiophantineSystem \<Rightarrow> Row \<Rightarrow> bool" where
  "stepped i s s' r' =
     (rows s' = (rows s)[i := r'] \<and> frozen r' = frozen (rows s ! i) \<and>
      length (selection r') = length (selection (rows s ! i)) \<and> rest s' = rest s \<and>
      (\<not> complex s \<longrightarrow> basesZero (selection (rows s ! i)) \<longrightarrow> basesZero (selection r')))"

definition stepFirstOK :: "nat \<Rightarrow> DiophantineSystem \<Rightarrow> bool \<Rightarrow> DiophantineSystem \<Rightarrow> bool" where
  "stepFirstOK i s ok s' =
     (\<exists>r'. stepped i s s' r' \<and>
        (if ok then rowActive r' (columns s) \<and> before r' (columns s') = columns s \<and>
                    length (columns s') = length (columns s)
         else columns s' = columns s))"

definition stepRetryOK :: "nat \<Rightarrow> DiophantineSystem \<Rightarrow> bool \<Rightarrow> DiophantineSystem \<Rightarrow> bool" where
  "stepRetryOK i s ok s' =
     (\<exists>r'. stepped i s s' r' \<and>
        (if ok then rowActive r' (before (rows s ! i) (columns s)) \<and>
                    before r' (columns s') = before (rows s ! i) (columns s) \<and>
                    length (columns s') = length (columns s)
         else columns s' = before (rows s ! i) (columns s)))"

definition Inv :: "nat \<Rightarrow> DiophantineSystem \<Rightarrow> DiophantineSystem \<Rightarrow> bool" where
  "Inv k p s =
     (k < length (rows s) \<and> map frozen (rows s) = map frozen (rows p) \<and> rest s = rest p \<and>
      length (columns s) = length (columns p) \<and>
      (\<forall>r\<in>set (rows s). length (selection r) = length (columns p)) \<and>
      activeRows (take k (rows s)) (columns s) \<and>
      foldr before (take k (rows s)) (columns s) = columns p \<and>
      (\<not> complex p \<longrightarrow> (\<forall>r\<in>set (rows s). basesZero (selection r))) \<and>
      basesZero (selection (last (rows s))))"

section \<open>The solubility vectors are total and mean what the search reads from them\<close>

lemma wrap_id: "- 2147483648 \<le> x \<Longrightarrow> x \<le> 2147483647 \<Longrightarrow> wrap x = x"
  by (simp add: wrap_def)

lemma wrap_range: "- 2147483648 \<le> wrap x \<and> wrap x \<le> 2147483647"
proof -
  have "0 \<le> (x + 2147483648) mod 4294967296" by simp
  moreover have "(x + 2147483648) mod 4294967296 < 4294967296" by simp
  ultimately show ?thesis unfolding wrap_def by linarith
qed

lemma wrap_add_left: "wrap (wrap a + b) = wrap (a + b)"
proof -
  have "wrap a + b + 2147483648 = (a + 2147483648) mod 4294967296 + b"
    by (simp add: wrap_def)
  then have "(wrap a + b + 2147483648) mod 4294967296
      = ((a + 2147483648) mod 4294967296 + b) mod 4294967296" by (rule arg_cong)
  also have "\<dots> = (a + 2147483648 + b) mod 4294967296" by (rule mod_add_left_eq)
  also have "a + 2147483648 + b = a + b + 2147483648" by simp
  finally show ?thesis by (simp add: wrap_def)
qed

lemma wrap_add_right: "wrap (a + wrap b) = wrap (a + b)"
  using wrap_add_left[of b a] by (simp add: add.commute)

lemma wrapSum_foldl: "foldl (\<lambda>a x. wrap (a + x)) (wrap a) xs = wrap (a + sum_list xs)"
  by (induction xs arbitrary: a) (simp_all add: wrap_add_left add.assoc)

lemma wrapSum_eq: "wrapSum xs = wrap (sum_list xs)"
  using wrapSum_foldl[of 0 xs] by (simp add: wrapSum_def wrap_def)

lemma readSoluble_in: "0 \<le> k \<Longrightarrow> k < int (length s) \<Longrightarrow> readSoluble s k = Inr (s ! nat k)"
  by (simp add: readSoluble_def)

lemma readSoluble_Inr: "readSoluble s k = Inr e \<Longrightarrow> 0 \<le> k \<and> k < int (length s) \<and> e = s ! nat k"
  by (simp add: readSoluble_def split: if_splits)

lemma length_resize [simp]: "length (resize d n xs) = n"
  by (simp add: resize_def)

lemma countMultiples_spec:
  assumes "c > 0" "0 \<le> cnt" "int (length s) = mcv + 1" "mcv + c \<le> 2147483647"
  shows "\<exists>s'. countMultiples mcv c mx (cnt * c) cnt s = Inr s' \<and> length s' = length s \<and>
     (\<forall>v. 0 \<le> v \<and> v \<le> mcv \<longrightarrow>
        s' ! nat v = (if c dvd v \<and> cnt \<le> v div c \<and> v div c \<le> mx
                      then \<lparr>min_s = v div c, max_s = v div c\<rparr> else s ! nat v))"
  using assms
proof (induction mcv c mx "cnt * c" cnt s rule: countMultiples.induct)
  case (1 mcv c mx cnt s)
  show ?case
  proof (cases "cnt * c \<le> mcv \<and> cnt \<le> mx")
    case False
    have "\<And>v. 0 \<le> v \<Longrightarrow> v \<le> mcv \<Longrightarrow> c dvd v \<Longrightarrow> cnt \<le> v div c \<Longrightarrow> v div c \<le> mx \<Longrightarrow> False"
    proof -
      fix v assume v: "0 \<le> v" "v \<le> mcv" "c dvd v" "cnt \<le> v div c" "v div c \<le> mx"
      have "cnt * c \<le> (v div c) * c" using v(4) 1(2) by (simp add: mult_right_mono)
      also have "\<dots> = v" using v(3) by simp
      finally show False using v False by auto
    qed
    then show ?thesis using False
      by (subst countMultiples.simps) auto
  next
    case True
    have inb: "0 \<le> cnt * c" "cnt * c < int (length s)"
      using True 1 by auto
    let ?s1 = "s[nat (cnt * c) := \<lparr>min_s = cnt, max_s = cnt\<rparr>]"
    have eq: "wrap (cnt * c + c) = (cnt + 1) * c"
      using True inb 1(2,5) by (simp add: wrap_id algebra_simps)
    have step: "countMultiples mcv c mx (cnt * c) cnt s = countMultiples mcv c mx ((cnt + 1) * c) (cnt + 1) ?s1"
      using True inb eq by (subst countMultiples.simps) simp
    from 1(1)[OF True conjI[OF inb] eq] inb 1(2-5)
    obtain s' where s': "countMultiples mcv c mx ((cnt + 1) * c) (cnt + 1) ?s1 = Inr s'"
        "length s' = length ?s1"
        "\<forall>v. 0 \<le> v \<and> v \<le> mcv \<longrightarrow>
        s' ! nat v = (if c dvd v \<and> cnt + 1 \<le> v div c \<and> v div c \<le> mx
                      then \<lparr>min_s = v div c, max_s = v div c\<rparr> else ?s1 ! nat v)"
      by auto
    have "\<And>v. 0 \<le> v \<Longrightarrow> v \<le> mcv \<Longrightarrow>  s' ! nat v = (if c dvd v \<and> cnt \<le> v div c \<and> v div c \<le> mx
                      then \<lparr>min_s = v div c, max_s = v div c\<rparr> else s ! nat v)"
    proof -
      fix v assume v: "0 \<le> v" "v \<le> mcv"
      show "s' ! nat v = (if c dvd v \<and> cnt \<le> v div c \<and> v div c \<le> mx
                      then \<lparr>min_s = v div c, max_s = v div c\<rparr> else s ! nat v)"
      proof (cases "v = cnt * c")
        case True
        then have "v div c = cnt" "c dvd v" using 1(2) by auto
        then show ?thesis using s'(3) v True \<open>cnt * c \<le> mcv \<and> cnt \<le> mx\<close> inb by auto
      next
        case False
        then have ne: "nat v \<noteq> nat (cnt * c)" using v inb by auto
        have "c dvd v \<Longrightarrow> v div c \<noteq> cnt" using False by auto
        then show ?thesis using s'(3) v ne by auto
      qed
    qed
    then show ?thesis using step s' by auto
  qed
qed

lemma nth_Cons_map_tail:
  "0 < n \<Longrightarrow> n < length (x # xs) \<Longrightarrow> (x # map f xs) ! n = f (xs ! (n - 1))"
  by (cases n) auto

lemma resizeSoluble_Inr:
  "0 \<le> mcv \<Longrightarrow> mcv < 2147483647 \<Longrightarrow>
     resizeSoluble mcv s = Inr (resize zeroSoluble (nat (mcv + 1)) s)"
  by (simp add: resizeSoluble_def wrap_id)

lemma lastSoluble_spec:
  assumes "coeff r > 0" "maxSize r \<ge> 0" "mcv \<ge> 0" "mcv + coeff r \<le> 2147483647"
  shows "\<exists>s. lastSoluble mcv r = Inr s \<and> int (length s) = mcv + 1 \<and>
     (\<forall>v. 0 \<le> v \<and> v \<le> mcv \<longrightarrow>
        s ! nat v = (if coeff r dvd v \<and> v div coeff r \<le> maxSize r
                      then \<lparr>min_s = v div coeff r, max_s = v div coeff r\<rparr> else insolubleEntry))"
proof -
  define s0 where "s0 = resize zeroSoluble (nat (mcv + 1)) (soluble r)"
  define s1 where "s1 = (case s0 of [] \<Rightarrow> [] | x # xs \<Rightarrow> x # map (\<lambda>_. insolubleEntry) xs)"
  have len0: "length s0 = nat (mcv + 1)" by (simp add: s0_def)
  have len1: "int (length s1) = mcv + 1" using len0 assms(3) by (cases s0) (auto simp: s1_def)
  have s1_nth: "\<And>v. 0 < v \<Longrightarrow> v \<le> mcv \<Longrightarrow> s1 ! nat v = insolubleEntry"
  proof -
    fix v :: int assume v: "0 < v" "v \<le> mcv"
    obtain x xs where s0: "s0 = x # xs" using len0 assms(3) by (cases s0) auto
    have "nat v < length (x # xs)" using len0 s0 v by auto
    moreover have "0 < nat v" using v by simp
    ultimately show "s1 ! nat v = insolubleEntry"
      unfolding s1_def s0 by (simp add: nth_Cons_map_tail)
  qed
  from countMultiples_spec[OF assms(1) order_refl len1 assms(4), of "maxSize r"]
  obtain s' where s': "countMultiples mcv (coeff r) (maxSize r) 0 0 s1 = Inr s'" "length s' = length s1"
    "\<forall>v. 0 \<le> v \<and> v \<le> mcv \<longrightarrow>
        s' ! nat v = (if coeff r dvd v \<and> 0 \<le> v div coeff r \<and> v div coeff r \<le> maxSize r
                      then \<lparr>min_s = v div coeff r, max_s = v div coeff r\<rparr> else s1 ! nat v)"
    by auto
  have "\<And>v. 0 \<le> v \<Longrightarrow> v \<le> mcv \<Longrightarrow> s' ! nat v = (if coeff r dvd v \<and> v div coeff r \<le> maxSize r
                      then \<lparr>min_s = v div coeff r, max_s = v div coeff r\<rparr> else insolubleEntry)"
  proof -
    fix v :: int assume v: "0 \<le> v" "v \<le> mcv"
    have d: "0 \<le> v div coeff r" using v assms(1) by (simp add: pos_imp_zdiv_nonneg_iff)
    show "s' ! nat v = (if coeff r dvd v \<and> v div coeff r \<le> maxSize r
                      then \<lparr>min_s = v div coeff r, max_s = v div coeff r\<rparr> else insolubleEntry)"
    proof (cases "v = 0")
      case True
      then show ?thesis using s'(3) v assms(2) by auto
    next
      case False
      then have "s1 ! nat v = insolubleEntry" using s1_nth v by simp
      then show ?thesis using s'(3) v d by auto
    qed
  qed
  moreover have "lastSoluble mcv r = Inr s'"
    using s'(1) assms(1,3,4) by (simp add: lastSoluble_def resizeSoluble_Inr s0_def s1_def Let_def)
  ultimately show ?thesis using s'(2) len1 by auto
qed

lemma scanNewMax_spec:
  assumes "c > 0" "0 \<le> j - newMax * c" "j < int (length prev)" "0 \<le> m" "m \<le> newMax"
    "min_s (prev ! nat (j - m * c)) \<noteq> INSOLUBLE"
  shows "\<exists>M. scanNewMax prev c (j - newMax * c) newMax = Inr M \<and> m \<le> M \<and> M \<le> newMax \<and>
           min_s (prev ! nat (j - M * c)) \<noteq> INSOLUBLE \<and>
           (\<forall>k. M < k \<and> k \<le> newMax \<longrightarrow> min_s (prev ! nat (j - k * c)) = INSOLUBLE)"
  using assms
proof (induction "nat (newMax - m)" arbitrary: newMax)
  case 0
  then have nm: "newMax = m" by simp
  have "0 \<le> m * c" using 0 by simp
  then have "j - m * c < int (length prev)" using 0 by linarith
  then show ?case using 0 nm by (subst scanNewMax.simps) auto
next
  case (Suc n)
  have "0 \<le> newMax * c" using Suc.prems by simp
  then have inb: "0 \<le> j - newMax * c" "j - newMax * c < int (length prev)"
    using Suc.prems by linarith+
  show ?case
  proof (cases "min_s (prev ! nat (j - newMax * c)) = INSOLUBLE")
    case False
    then show ?thesis using Suc.prems inb by (subst scanNewMax.simps) auto
  next
    case True
    have lt: "m < newMax" using Suc.hyps(2) by linarith
    have n: "n = nat (newMax - 1 - m)" using Suc.hyps(2) by linarith
    have eq: "j - newMax * c + c = j - (newMax - 1) * c" by (simp add: algebra_simps)
    have ge: "0 \<le> j - (newMax - 1) * c" using inb(1) Suc.prems(1) eq by linarith
    from Suc.hyps(1)[OF n Suc.prems(1) ge Suc.prems(3,4) _ Suc.prems(6)] lt
    obtain M where M: "scanNewMax prev c (j - (newMax - 1) * c) (newMax - 1) = Inr M" "m \<le> M" "M \<le> newMax - 1"
        "min_s (prev ! nat (j - M * c)) \<noteq> INSOLUBLE"
        "\<forall>k. M < k \<and> k \<le> newMax - 1 \<longrightarrow> min_s (prev ! nat (j - k * c)) = INSOLUBLE"
      by auto
    have "scanNewMax prev c (j - newMax * c) newMax = Inr M"
      using True inb Suc.prems(1) M(1) unfolding eq[symmetric] by (subst scanNewMax.simps) simp
    moreover have "\<forall>k. M < k \<and> k \<le> newMax \<longrightarrow> min_s (prev ! nat (j - k * c)) = INSOLUBLE"
    proof (intro allI impI)
      fix k assume "M < k \<and> k \<le> newMax"
      then show "min_s (prev ! nat (j - k * c)) = INSOLUBLE"
        using M(5) True by (cases "k = newMax") auto
    qed
    ultimately show ?thesis using M by auto
  qed
qed

lemma feasible_zero:
  "0 \<le> mx \<Longrightarrow> 0 \<le> j \<Longrightarrow> feasibleCount prev c mx j 0 \<longleftrightarrow> min_s (prev ! nat j) \<noteq> INSOLUBLE"
  by (simp add: feasibleCount_def)

lemma feasible_step:
  "1 \<le> k \<Longrightarrow> feasibleCount prev c mx j k \<longleftrightarrow> (k \<le> mx \<and> feasibleCount prev c mx (j - c) (k - 1))"
proof -
  assume k: "1 \<le> k"
  have a: "j - c - (k - 1) * c = j - k * c" by (simp add: algebra_simps)
  have b: "(k - 1) * c \<le> j - c \<longleftrightarrow> k * c \<le> j" by (simp add: algebra_simps)
  show ?thesis using k unfolding feasibleCount_def a b by auto
qed

lemma feasible_nonneg: "feasibleCount prev c mx j k \<Longrightarrow> 0 \<le> k"
  by (simp add: feasibleCount_def)

lemma feasible_pos_needs: "c > 0 \<Longrightarrow> 1 \<le> k \<Longrightarrow> feasibleCount prev c mx j k \<Longrightarrow> 0 \<le> j - c"
proof -
  assume c: "c > 0" and k: "1 \<le> k" and f: "feasibleCount prev c mx j k"
  have "c \<le> k * c" using c k by (simp add: mult_le_cancel_right1)
  then show ?thesis using f by (simp add: feasibleCount_def)
qed

lemma entryFor_none: "\<not> (\<exists>k. P k) \<Longrightarrow> entryFor P insolubleEntry"
  by (simp add: entryFor_def insolubleEntry_def)

lemma entryFor_only_zero: "P 0 \<Longrightarrow> (\<And>k. P k \<Longrightarrow> k = 0) \<Longrightarrow> entryFor P zeroSoluble"
  by (auto simp: entryFor_def zeroSoluble_def)

lemma entryFor_I:
  "P a \<Longrightarrow> P b \<Longrightarrow> (\<And>k. P k \<Longrightarrow> a \<le> k \<and> k \<le> b) \<Longrightarrow> entryFor P \<lparr>min_s = a, max_s = b\<rparr>"
  by (auto simp: entryFor_def)

lemma entryFor_D:
  "entryFor P e \<Longrightarrow> P k \<Longrightarrow> P (min_s e) \<and> P (max_s e) \<and> min_s e \<le> k \<and> k \<le> max_s e"
  by (auto simp: entryFor_def split: if_splits)

lemma entryFor_insoluble:
  "entryFor P e \<Longrightarrow> (\<And>k. P k \<Longrightarrow> 0 \<le> k) \<Longrightarrow> min_s e \<noteq> INSOLUBLE \<longleftrightarrow> (\<exists>k. P k)"
proof -
  assume e: "entryFor P e" and nn: "\<And>k. P k \<Longrightarrow> 0 \<le> k"
  show ?thesis
  proof
    assume "min_s e \<noteq> INSOLUBLE"
    then show "\<exists>k. P k" using e by (auto simp: entryFor_def split: if_splits)
  next
    assume "\<exists>k. P k"
    then have "P (min_s e)" using e by (auto simp: entryFor_def)
    then have "0 \<le> min_s e" using nn by blast
    then show "min_s e \<noteq> INSOLUBLE" by (simp add: INSOLUBLE_def)
  qed
qed

lemma nextEntry_spec:
  assumes c: "c > 0" and mx: "mx \<ge> 0" and j: "0 \<le> j" "j \<le> mcv" and fit: "mcv \<le> 2147483647"
    and lp: "int (length prev) = mcv + 1" and ln: "int (length nxt) = mcv + 1"
    and ih: "\<forall>v. 0 \<le> v \<and> v < j \<longrightarrow> entryFor (feasibleCount prev c mx v) (nxt ! nat v)"
  shows "\<exists>e. nextEntry prev nxt c mx j = Inr e \<and> entryFor (feasibleCount prev c mx j) e"
proof -
  let ?F = "feasibleCount prev c mx"
  let ?pj = "prev ! nat j"
  let ?noCopy = "if min_s ?pj = INSOLUBLE then insolubleEntry else zeroSoluble"
  have rp: "readSoluble prev j = Inr ?pj" using j lp by (simp add: readSoluble_in)
  have F0: "?F j 0 \<longleftrightarrow> min_s ?pj \<noteq> INSOLUBLE" using feasible_zero[OF mx j(1)] .
  have noCopy: "(\<And>k. ?F j k \<Longrightarrow> k = 0) \<Longrightarrow> entryFor (?F j) ?noCopy"
  proof -
    assume only: "\<And>k. ?F j k \<Longrightarrow> k = 0"
    show "entryFor (?F j) ?noCopy"
    proof (cases "min_s ?pj = INSOLUBLE")
      case True
      then have "\<not> (\<exists>k. ?F j k)" using only F0 by metis
      then show ?thesis using True by (simp add: entryFor_none)
    next
      case False
      then show ?thesis using only F0 by (simp add: entryFor_only_zero)
    qed
  qed
  show ?thesis
  proof (cases "j - c \<ge> 0")
    case False
    have "\<And>k. ?F j k \<Longrightarrow> k = 0"
    proof -
      fix k assume f: "?F j k"
      show "k = 0"
      proof (rule ccontr)
        assume "k \<noteq> 0"
        then have "1 \<le> k" using feasible_nonneg[OF f] by linarith
        from feasible_pos_needs[OF c this f] False show False by simp
      qed
    qed
    from noCopy[OF this] show ?thesis
      using False rp by (simp add: nextEntry_def Let_def)
  next
    case True
    let ?t = "j - c"
    let ?nt = "nxt ! nat ?t"
    have tj: "?t < j" using c by simp
    have rn: "readSoluble nxt ?t = Inr ?nt" using True tj j ln by (simp add: readSoluble_in)
    have eF: "entryFor (?F ?t) ?nt" using ih True tj by blast
    have sol_t: "min_s ?nt \<noteq> INSOLUBLE \<longleftrightarrow> (\<exists>k. ?F ?t k)"
      using entryFor_insoluble[OF eF] feasible_nonneg by blast
    show ?thesis
    proof (cases "min_s ?nt \<noteq> INSOLUBLE \<and> min_s ?nt < mx")
      case False
      have "\<And>k. ?F j k \<Longrightarrow> k = 0"
      proof -
        fix k assume f: "?F j k"
        show "k = 0"
        proof (rule ccontr)
          assume "k \<noteq> 0"
          then have k1: "1 \<le> k" using feasible_nonneg[OF f] by linarith
          from f feasible_step[OF k1] have kk: "k \<le> mx" "?F ?t (k - 1)" by auto
          from entryFor_D[OF eF kk(2)] sol_t kk(2) have "min_s ?nt \<le> k - 1" "min_s ?nt \<noteq> INSOLUBLE"
            by auto
          then show False using False kk(1) by linarith
        qed
      qed
      from noCopy[OF this] show ?thesis
        using False True rp rn by (auto simp add: nextEntry_def Let_def)
    next
      case A: True
      then obtain k0 where k0: "?F ?t k0" using sol_t by blast
      from entryFor_D[OF eF k0] have Fmin: "?F ?t (min_s ?nt)" and Fmax: "?F ?t (max_s ?nt)" by auto
      have min0: "0 \<le> min_s ?nt" using feasible_nonneg[OF Fmin] .
      have max_le: "max_s ?nt \<le> mx" using Fmax by (simp add: feasibleCount_def)
      have Fj_min1: "?F j (min_s ?nt + 1)"
        using feasible_step[of "min_s ?nt + 1" prev c mx j] Fmin A min0 by simp
      let ?mn = "if min_s ?pj = INSOLUBLE then min_s ?nt + 1 else 0"
      have Fmn: "?F j ?mn" using Fj_min1 F0 by simp
      have mn_least: "\<And>k. ?F j k \<Longrightarrow> ?mn \<le> k"
      proof -
        fix k assume f: "?F j k"
        show "?mn \<le> k"
        proof (cases "k = 0")
          case True
          then show ?thesis using f F0 by simp
        next
          case False
          then have k1: "1 \<le> k" using feasible_nonneg[OF f] by linarith
          from f feasible_step[OF k1] have "?F ?t (k - 1)" by auto
          from entryFor_D[OF eF this] have "min_s ?nt \<le> k - 1" by simp
          then show ?thesis using feasible_nonneg[OF f] by simp
        qed
      qed
      show ?thesis
      proof (cases "max_s ?nt < mx")
        case B: True
        have Fj_max1: "?F j (max_s ?nt + 1)"
          using feasible_step[of "max_s ?nt + 1" prev c mx j] Fmax B feasible_nonneg[OF Fmax] by simp
        have mx_greatest: "\<And>k. ?F j k \<Longrightarrow> k \<le> max_s ?nt + 1"
        proof -
          fix k assume f: "?F j k"
          show "k \<le> max_s ?nt + 1"
          proof (cases "k = 0")
            case True
            then show ?thesis using feasible_nonneg[OF Fmax] by simp
          next
            case False
            then have k1: "1 \<le> k" using feasible_nonneg[OF f] by linarith
            from f feasible_step[OF k1] have "?F ?t (k - 1)" by auto
            from entryFor_D[OF eF this] show ?thesis by simp
          qed
        qed
        have "entryFor (?F j) \<lparr>min_s = ?mn, max_s = max_s ?nt + 1\<rparr>"
          by (rule entryFor_I[OF Fmn Fj_max1]) (use mn_least mx_greatest in blast)
        moreover have "nextEntry prev nxt c mx j = Inr \<lparr>min_s = ?mn, max_s = max_s ?nt + 1\<rparr>"
          using A B True rp rn by (simp add: nextEntry_def Let_def)
        ultimately show ?thesis by blast
      next
        case B: False
        then have maxeq: "max_s ?nt = mx" using max_le by simp
        have le: "mx * c \<le> ?t" using Fmax maxeq by (simp add: feasibleCount_def)
        then have ge: "0 \<le> j - mx * c" using c by linarith
        have p0: "0 \<le> mx * c" using mx c by simp
        have "wrap (mx * c) = mx * c" using p0 le c j fit by (intro wrap_id) linarith+
        moreover have "wrap (j - mx * c) = j - mx * c" using p0 ge j fit by (intro wrap_id) linarith+
        ultimately have wr: "wrap (j - wrap (mx * c)) = j - mx * c" by simp
        have jl: "j < int (length prev)" using j lp by simp
        have m1: "0 \<le> min_s ?nt + 1" "min_s ?nt + 1 \<le> mx" using min0 A by auto
        have sol1: "min_s (prev ! nat (j - (min_s ?nt + 1) * c)) \<noteq> INSOLUBLE"
          using Fj_min1 by (simp add: feasibleCount_def)
        from scanNewMax_spec[OF c ge jl m1 sol1]
        obtain M where M: "scanNewMax prev c (j - mx * c) mx = Inr M" "min_s ?nt + 1 \<le> M" "M \<le> mx"
          "min_s (prev ! nat (j - M * c)) \<noteq> INSOLUBLE"
          "\<forall>k. M < k \<and> k \<le> mx \<longrightarrow> min_s (prev ! nat (j - k * c)) = INSOLUBLE"
          by blast
        have "M * c \<le> mx * c" using M(3) c by (simp add: mult_right_mono)
        then have FM: "?F j M" using M(2,3,4) min0 ge by (simp add: feasibleCount_def)
        have M_greatest: "\<And>k. ?F j k \<Longrightarrow> k \<le> M"
        proof -
          fix k assume f: "?F j k"
          show "k \<le> M"
          proof (rule ccontr)
            assume "\<not> k \<le> M"
            then have "M < k \<and> k \<le> mx" using f by (simp add: feasibleCount_def)
            then have "min_s (prev ! nat (j - k * c)) = INSOLUBLE" using M(5) by blast
            then show False using f by (simp add: feasibleCount_def)
          qed
        qed
        have "entryFor (?F j) \<lparr>min_s = ?mn, max_s = M\<rparr>"
          by (rule entryFor_I[OF Fmn FM]) (use mn_least M_greatest in blast)
        moreover have "nextEntry prev nxt c mx j = Inr \<lparr>min_s = ?mn, max_s = M\<rparr>"
          using A B True rp rn M(1,2) wr by (simp add: nextEntry_def Let_def)
        ultimately show ?thesis by blast
      qed
    qed
  qed
qed

lemma fillNext_spec:
  assumes c: "c > 0" and mx: "mx \<ge> 0" and fit: "mcv \<le> 2147483647" and j: "0 \<le> j" "j \<le> mcv + 1"
    and lp: "int (length prev) = mcv + 1" and ln: "int (length nxt) = mcv + 1"
    and ih: "\<forall>v. 0 \<le> v \<and> v < j \<longrightarrow> entryFor (feasibleCount prev c mx v) (nxt ! nat v)"
  shows "\<exists>s. fillNext prev c mx mcv j nxt = Inr s \<and> int (length s) = mcv + 1 \<and>
           (\<forall>v. 0 \<le> v \<and> v \<le> mcv \<longrightarrow> entryFor (feasibleCount prev c mx v) (s ! nat v))"
  using j ln ih
proof (induction "nat (mcv + 1 - j)" arbitrary: j nxt)
  case 0
  then have "j = mcv + 1" by simp
  then show ?case using 0 by (subst fillNext.simps) auto
next
  case (Suc n)
  have jm: "j \<le> mcv" using Suc.hyps(2) by linarith
  from nextEntry_spec[OF c mx Suc.prems(1) jm fit lp Suc.prems(3,4)]
  obtain e where e: "nextEntry prev nxt c mx j = Inr e" "entryFor (feasibleCount prev c mx j) e"
    by blast
  let ?nxt = "nxt[nat j := e]"
  have n: "n = nat (mcv + 1 - (j + 1))" using Suc.hyps(2) by linarith
  have ih': "\<forall>v. 0 \<le> v \<and> v < j + 1 \<longrightarrow> entryFor (feasibleCount prev c mx v) (?nxt ! nat v)"
  proof (intro allI impI)
    fix v assume v: "0 \<le> v \<and> v < j + 1"
    show "entryFor (feasibleCount prev c mx v) (?nxt ! nat v)"
    proof (cases "v = j")
      case True
      then show ?thesis using e(2) Suc.prems(1,3) jm by simp
    next
      case False
      then have "nat v \<noteq> nat j" using v Suc.prems(1) by auto
      then show ?thesis using Suc.prems(4) v False by simp
    qed
  qed
  from Suc.hyps(1)[OF n _ _ _ ih'] Suc.prems(1,3) jm
  obtain s where s: "fillNext prev c mx mcv (j + 1) ?nxt = Inr s" "int (length s) = mcv + 1"
     "\<forall>v. 0 \<le> v \<and> v \<le> mcv \<longrightarrow> entryFor (feasibleCount prev c mx v) (s ! nat v)"
    by auto
  have "fillNext prev c mx mcv j nxt = Inr s"
    using jm e(1) Suc.prems(1,3) s(1) by (subst fillNext.simps) simp
  then show ?case using s by blast
qed

lemma completion_Nil [simp]: "completion [] ks v \<longleftrightarrow> ks = [] \<and> v = 0"
  by (auto simp: completion_def)

lemma completion_Cons [simp]:
  "completion (r # rs) (k # ks) v \<longleftrightarrow> 0 \<le> k \<and> k \<le> maxSize r \<and> completion rs ks (v - k * coeff r)"
  by (auto simp: completion_def)

lemma completion_Cons_Nil [simp]: "\<not> completion (r # rs) [] v"
  by (simp add: completion_def)

lemma completion_nonneg:
  "\<forall>r\<in>set rs. coeff r > 0 \<Longrightarrow> completion rs ks v \<Longrightarrow> 0 \<le> v"
proof (induction rs arbitrary: ks v)
  case Nil
  then show ?case by simp
next
  case (Cons r rs)
  then obtain k ks' where ks: "ks = k # ks'" by (cases ks) auto
  with Cons.prems have k: "0 \<le> k" and rest: "completion rs ks' (v - k * coeff r)" by auto
  from Cons.IH[OF _ rest] Cons.prems(1) have "0 \<le> v - k * coeff r" by simp
  moreover have "0 \<le> k * coeff r" using k Cons.prems(1) by simp
  ultimately show ?case by linarith
qed

lemma entryFor_cong: "(\<And>k. P k = Q k) \<Longrightarrow> entryFor P e = entryFor Q e"
  by (simp add: entryFor_def)

lemma placesCopies_single:
  "placesCopies [r] v k \<longleftrightarrow> 0 \<le> k \<and> k \<le> maxSize r \<and> k * coeff r = v"
  by (auto simp: placesCopies_def)

lemma places_nonneg: "placesCopies (r # rs) v k \<Longrightarrow> 0 \<le> k"
  by (auto simp: placesCopies_def)

lemma tableMeans_soluble:
  assumes "tableMeans mcv (r # rs) tbl" "0 \<le> w" "w \<le> mcv"
  shows "min_s (tbl ! nat w) \<noteq> INSOLUBLE \<longleftrightarrow> (\<exists>ks. completion (r # rs) ks w)"
proof -
  have e: "entryFor (placesCopies (r # rs) w) (tbl ! nat w)"
    using assms by (simp add: tableMeans_def)
  have "(\<exists>ks. completion (r # rs) ks w) \<longleftrightarrow> (\<exists>k. placesCopies (r # rs) w k)"
  proof
    assume "\<exists>ks. completion (r # rs) ks w"
    then obtain ks where ks: "completion (r # rs) ks w" by blast
    then obtain k ks' where "ks = k # ks'" by (cases ks) auto
    with ks show "\<exists>k. placesCopies (r # rs) w k" by (auto simp: placesCopies_def)
  next
    assume "\<exists>k. placesCopies (r # rs) w k"
    then show "\<exists>ks. completion (r # rs) ks w" unfolding placesCopies_def by blast
  qed
  then show ?thesis using entryFor_insoluble[OF e] places_nonneg by blast
qed

lemma feasible_places:
  assumes tm: "tableMeans mcv (r' # rs) prev" and pos: "\<forall>x\<in>set (r' # rs). coeff x > 0"
    and c: "coeff r > 0" and v: "0 \<le> v" "v \<le> mcv"
  shows "feasibleCount prev (coeff r) (maxSize r) v k = placesCopies (r # r' # rs) v k"
proof (cases "0 \<le> k \<and> k \<le> maxSize r")
  case False
  then show ?thesis by (auto simp: feasibleCount_def placesCopies_def)
next
  case True
  let ?w = "v - k * coeff r"
  have kc: "0 \<le> k * coeff r" using True c by simp
  show ?thesis
  proof (cases "k * coeff r \<le> v")
    case le: True
    then have w: "0 \<le> ?w" "?w \<le> mcv" using kc v by auto
    from tableMeans_soluble[OF tm w] True le show ?thesis
      by (auto simp: feasibleCount_def placesCopies_def)
  next
    case gt: False
    have "\<not> (\<exists>ks. completion (r' # rs) ks ?w)"
    proof
      assume "\<exists>ks. completion (r' # rs) ks ?w"
      then obtain ks where "completion (r' # rs) ks ?w" by blast
      from completion_nonneg[OF pos this] gt show False by simp
    qed
    then show ?thesis using gt by (auto simp: feasibleCount_def placesCopies_def)
  qed
qed

lemma lastSoluble_means:
  assumes "coeff r > 0" "maxSize r \<ge> 0" "mcv \<ge> 0" "mcv + coeff r \<le> 2147483647"
  shows "\<exists>s. lastSoluble mcv r = Inr s \<and> tableMeans mcv [r] s"
proof -
  from lastSoluble_spec[OF assms] obtain s where s: "lastSoluble mcv r = Inr s" "int (length s) = mcv + 1"
    "\<forall>v. 0 \<le> v \<and> v \<le> mcv \<longrightarrow>
        s ! nat v = (if coeff r dvd v \<and> v div coeff r \<le> maxSize r
                      then \<lparr>min_s = v div coeff r, max_s = v div coeff r\<rparr> else insolubleEntry)"
    by blast
  have "\<And>v. 0 \<le> v \<Longrightarrow> v \<le> mcv \<Longrightarrow> entryFor (placesCopies [r] v) (s ! nat v)"
  proof -
    fix v :: int assume v: "0 \<le> v" "v \<le> mcv"
    have d: "0 \<le> v div coeff r" using v assms(1) by (simp add: pos_imp_zdiv_nonneg_iff)
    show "entryFor (placesCopies [r] v) (s ! nat v)"
    proof (cases "coeff r dvd v \<and> v div coeff r \<le> maxSize r")
      case True
      then have P: "placesCopies [r] v (v div coeff r)" using d by (simp add: placesCopies_single)
      have uniq: "\<And>k. placesCopies [r] v k \<Longrightarrow> k = v div coeff r"
        using assms(1) by (auto simp: placesCopies_single)
      have "entryFor (placesCopies [r] v) \<lparr>min_s = v div coeff r, max_s = v div coeff r\<rparr>"
      proof (rule entryFor_I[of "placesCopies [r] v" "v div coeff r" "v div coeff r", OF P P])
        fix k assume "placesCopies [r] v k"
        then have "k = v div coeff r" by (rule uniq)
        then show "v div coeff r \<le> k \<and> k \<le> v div coeff r" by simp
      qed
      moreover have "s ! nat v = (if coeff r dvd v \<and> v div coeff r \<le> maxSize r
                      then \<lparr>min_s = v div coeff r, max_s = v div coeff r\<rparr> else insolubleEntry)"
        using s(3) v by blast
      then have "s ! nat v = \<lparr>min_s = v div coeff r, max_s = v div coeff r\<rparr>" by (simp only: if_P[OF True])
      ultimately show ?thesis by simp
    next
      case False
      have "\<not> (\<exists>k. placesCopies [r] v k)"
      proof
        assume "\<exists>k. placesCopies [r] v k"
        then obtain k where k: "0 \<le> k" "k \<le> maxSize r" "k * coeff r = v"
          by (auto simp: placesCopies_single)
        then have "coeff r dvd v" "v div coeff r = k" using assms(1) by auto
        then show False using False k by simp
      qed
      then have en: "entryFor (placesCopies [r] v) insolubleEntry" by (rule entryFor_none)
      have "s ! nat v = (if coeff r dvd v \<and> v div coeff r \<le> maxSize r
                      then \<lparr>min_s = v div coeff r, max_s = v div coeff r\<rparr> else insolubleEntry)"
        using s(3) v by blast
      then have "s ! nat v = insolubleEntry" by (simp only: if_not_P[OF False])
      then show ?thesis using en by simp
    qed
  qed
  then show ?thesis using s by (auto simp: tableMeans_def)
qed

lemma buildRows_spec:
  assumes "rs \<noteq> []"
    "\<forall>r\<in>set rs. coeff r > 0 \<and> maxSize r \<ge> 0 \<and> mcv + coeff r \<le> 2147483647" "mcv \<ge> 0"
  shows "\<exists>tbls. buildRows mcv rs = Inr (map2 (\<lambda>r t. r\<lparr>soluble := t\<rparr>) rs tbls) \<and>
           length tbls = length rs \<and>
           (\<forall>i<length rs. tableMeans mcv (drop i rs) (tbls ! i))"
  using assms
proof (induction mcv rs rule: buildRows.induct)
  case (1 mcv)
  then show ?case by simp
next
  case (2 mcv r)
  from lastSoluble_means[of r mcv] 2 obtain s where s: "lastSoluble mcv r = Inr s" "tableMeans mcv [r] s"
    by auto
  then show ?case by (intro exI[of _ "[s]"]) simp
next
  case (3 mcv r r' rs)
  from 3 obtain tbls where tbls: "buildRows mcv (r' # rs) = Inr (map2 (\<lambda>r t. r\<lparr>soluble := t\<rparr>) (r' # rs) tbls)"
     "length tbls = length (r' # rs)"
     "\<forall>i<length (r' # rs). tableMeans mcv (drop i (r' # rs)) (tbls ! i)"
    by auto
  obtain x xs where x: "tbls = x # xs" using tbls(2) by (cases tbls) auto
  have tm: "tableMeans mcv (r' # rs) x" using tbls(3) x by force
  let ?n0 = "resize zeroSoluble (nat (mcv + 1)) (soluble r)"
  have c: "coeff r > 0" and mx: "maxSize r \<ge> 0" and fc: "mcv + coeff r \<le> 2147483647"
    using 3(2-) by auto
  have fit: "mcv \<le> 2147483647" "mcv < 2147483647" using c fc by linarith+
  have rz: "resizeSoluble mcv (soluble r) = Inr ?n0" using 3(2-) fit by (simp add: resizeSoluble_Inr)
  have pos: "\<forall>x\<in>set (r' # rs). coeff x > 0" using 3(2-) by auto
  have lp: "int (length x) = mcv + 1" using tm by (simp add: tableMeans_def)
  have ln: "int (length ?n0) = mcv + 1" using 3(2-) by simp
  have j0: "(0::int) \<le> mcv + 1" using 3(2-) by simp
  have ih0: "\<forall>v. 0 \<le> v \<and> v < 0 \<longrightarrow> entryFor (feasibleCount x (coeff r) (maxSize r) v) (?n0 ! nat v)"
    by (intro allI impI, elim conjE) linarith
  from fillNext_spec[OF c mx fit(1) order_refl j0 lp ln ih0]
  obtain s where s: "fillNext x (coeff r) (maxSize r) mcv 0 ?n0 = Inr s" "int (length s) = mcv + 1"
     "\<forall>v. 0 \<le> v \<and> v \<le> mcv \<longrightarrow> entryFor (feasibleCount x (coeff r) (maxSize r) v) (s ! nat v)"
    by blast
  have "\<And>v. 0 \<le> v \<Longrightarrow> v \<le> mcv \<Longrightarrow> entryFor (placesCopies (r # r' # rs) v) (s ! nat v)"
  proof -
    fix v :: int assume v: "0 \<le> v" "v \<le> mcv"
    have "entryFor (feasibleCount x (coeff r) (maxSize r) v) (s ! nat v)" using s(3) v by blast
    then show "entryFor (placesCopies (r # r' # rs) v) (s ! nat v)"
      using entryFor_cong[of "feasibleCount x (coeff r) (maxSize r) v" "placesCopies (r # r' # rs) v" "s ! nat v"]
        feasible_places[OF tm pos c v] by blast
  qed
  then have tms: "tableMeans mcv (r # r' # rs) s" using s(2) by (simp add: tableMeans_def)
  have res: "buildRows mcv (r # r' # rs) = Inr (map2 (\<lambda>r t. r\<lparr>soluble := t\<rparr>) (r # r' # rs) (s # tbls))"
    using tbls(1) s(1) x rz by simp
  have "\<And>i. i < length (r # r' # rs) \<Longrightarrow> tableMeans mcv (drop i (r # r' # rs)) ((s # tbls) ! i)"
  proof -
    fix i assume i: "i < length (r # r' # rs)"
    show "tableMeans mcv (drop i (r # r' # rs)) ((s # tbls) ! i)"
    proof (cases i)
      case 0
      then show ?thesis using tms by simp
    next
      case (Suc i')
      then have "i' < length (r' # rs)" using i by simp
      then show ?thesis using tbls(3) Suc by simp
    qed
  qed
  then have all: "\<forall>i<length (r # r' # rs). tableMeans mcv (drop i (r # r' # rs)) ((s # tbls) ! i)"
    by blast
  have len: "length (s # tbls) = length (r # r' # rs)" using tbls(2) by simp
  show ?case
    by (rule exI[of _ "s # tbls"], intro conjI) (rule res, rule len, rule all)
qed

section \<open>Declared systems and the first parts of precompute\<close>

lemma insertRows_Inr:
  "insertRows ts s = Inr s' \<Longrightarrow>
     s' = s\<lparr>rows := rows s @ declaredRows (length (rows s)) ts\<rparr> \<and> list_all validRow ts"
proof (induction ts arbitrary: s)
  case Nil
  then show ?case by simp
next
  case (Cons t ts)
  obtain c lo hi where t: "t = (c, lo, hi)" by (cases t) auto
  from Cons.prems t obtain s1 where s1: "insertRow c lo hi s = Inr s1" "insertRows ts s1 = Inr s'"
    by (auto split: sum.splits)
  from s1(1) have v: "validRow t" and e: "s1 = s\<lparr>rows := rows s @ [declaredRow (length (rows s)) t]\<rparr>"
    by (auto simp: insertRow_def validRow_def declaredRow_def t split: if_splits)
  from Cons.IH[OF s1(2)] show ?case using v e by simp
qed

lemma insertColumns_Inr:
  "insertColumns vs s = Inr s' \<Longrightarrow>
     s' = s\<lparr>columns := columns s @ vs,
            columnSum := foldl (\<lambda>a v. wrap (a + v)) (columnSum s) vs,
            maxColumnValue := fold max vs (maxColumnValue s)\<rparr> \<and> list_all (\<lambda>v. v > 0) vs"
proof (induction vs arbitrary: s)
  case Nil
  then show ?case by simp
next
  case (Cons v vs)
  from Cons.prems obtain s1 where s1: "insertColumn v s = Inr s1" "insertColumns vs s1 = Inr s'"
    by (auto split: sum.splits)
  from s1(1) have v: "v > 0" and e: "s1 = s\<lparr>columns := columns s @ [v],
             columnSum := wrap (columnSum s + v),
             maxColumnValue := max v (maxColumnValue s)\<rparr>"
    by (auto simp: insertColumn_def max_def split: if_splits)
  from Cons.IH[OF s1(2)] show ?case using v e by simp
qed

lemma declare_system_Inr:
  assumes "declare_system ts vs = Inr s"
  shows "s = \<lparr>rows = declaredRows 0 ts, columns = vs, rowPermute = [], columnSum = wrapSum vs,
              maxColumnValue = fold max vs 0, closed = False, complex = False, failed = False\<rparr>"
    and "list_all validRow ts" and "list_all (\<lambda>v. v > 0) vs"
proof -
  from assms obtain s1 where s1: "insertRows ts newSystem = Inr s1" "insertColumns vs s1 = Inr s"
    by (auto simp: declare_system_def split: sum.splits)
  from insertRows_Inr[OF s1(1)] insertColumns_Inr[OF s1(2)]
  show "s = \<lparr>rows = declaredRows 0 ts, columns = vs, rowPermute = [], columnSum = wrapSum vs,
              maxColumnValue = fold max vs 0, closed = False, complex = False, failed = False\<rparr>"
    and "list_all validRow ts" and "list_all (\<lambda>v. v > 0) vs"
    by (simp_all add: newSystem_def wrapSum_def)
qed

lemma wrapSum_fits:
  "list_all (\<lambda>v. v > 0) vs \<Longrightarrow> sum_list vs \<le> 2147483647 \<Longrightarrow> wrapSum vs = sum_list vs"
proof -
  assume p: "list_all (\<lambda>v. v > 0) vs" and f: "sum_list vs \<le> 2147483647"
  have "(0::int) \<le> sum_list vs" using p by (induction vs) auto
  then show ?thesis using f by (simp add: wrapSum_eq wrap_id)
qed

lemma length_declaredRows [simp]: "length (declaredRows n ts) = length ts"
  by (induction ts arbitrary: n) auto

lemma nth_declaredRows: "i < length ts \<Longrightarrow> declaredRows n ts ! i = declaredRow (n + i) (ts ! i)"
  by (induction ts arbitrary: n i) (auto simp: nth_Cons split: nat.splits)

lemma fold_max_ge: "(m::int) \<le> fold max vs m"
proof (induction vs arbitrary: m)
  case Nil
  then show ?case by simp
next
  case (Cons a vs)
  have "m \<le> max a m" by simp
  also have "\<dots> \<le> fold max vs (max a m)" by (rule Cons.IH)
  finally show ?case by simp
qed

lemma fold_max_bound: "v \<in> set vs \<Longrightarrow> (v::int) \<le> fold max vs m"
proof (induction vs arbitrary: m)
  case Nil
  then show ?case by simp
next
  case (Cons a vs)
  show ?case
  proof (cases "v = a")
    case True
    have "max a m \<le> fold max vs (max a m)" by (rule fold_max_ge)
    then show ?thesis using True by simp
  next
    case False
    then show ?thesis using Cons by simp
  qed
qed

lemma mset_insertSorted [simp]: "mset (insertSorted r xs) = add_mset r (mset xs)"
  by (induction xs) auto

lemma mset_sortRows [simp]: "mset (sortRows rs) = mset rs"
  by (induction rs) auto

lemma set_sortRows [simp]: "set (sortRows rs) = set rs"
  by (metis mset_sortRows set_mset_mset)

lemma length_sortRows [simp]: "length (sortRows rs) = length rs"
  by (metis mset_sortRows size_mset)

lemma leaveLoop_rows:
  "leaveLoop m i rs p = (rs', p', mt, xt) \<Longrightarrow>
     rs' = arrangedRows m rs \<and> mt = wrap (sum_list (map minProduct rs)) \<and>
     xt = wrap (sum_list (map maxProduct rs))"
proof (induction rs arbitrary: i rs' p' mt xt)
  case Nil
  then show ?case by (simp add: wrap_def)
next
  case (Cons r rs)
  obtain rs1 p1 mt1 xt1 where l: "leaveLoop m (Suc i) rs p = (rs1, p1, mt1, xt1)"
    by (cases "leaveLoop m (Suc i) rs p") auto
  from Cons.IH[OF l] Cons.prems l show ?case
    by (auto simp: arrangedRow_def wrap_add_left add.commute[of "minProduct r"] add.commute[of "maxProduct r"])
qed

lemma length_arrangedRows [simp]: "length (arrangedRows m rs) = length rs"
  by (induction rs) auto

lemma nth_arrangedRows:
  "i < length rs \<Longrightarrow> arrangedRows m rs ! i = arrangedRow m (drop (Suc i) rs) (rs ! i)"
  by (induction rs arbitrary: i) (auto simp: nth_Cons split: nat.splits)

lemma arrangedRow_fields [simp]:
  "coeff (arrangedRow m l r) = coeff r" "maxSize (arrangedRow m l r) = maxSize r"
  "minSize (arrangedRow m l r) = minSize r" "name (arrangedRow m l r) = name r"
  "minProduct (arrangedRow m l r) = minProduct r" "maxProduct (arrangedRow m l r) = maxProduct r"
  "soluble (arrangedRow m l r) = soluble r"
  by (simp_all add: arrangedRow_def)

lemma rows_arrange: "rows (arrange s) = arrangedRows (length (columns s)) (sortRows (rows s))"
proof -
  obtain rs' p' mt xt where l: "leaveLoop (length (columns s)) 0 (sortRows (rows s))
             (resize 0 (length (rows s)) (rowPermute s)) = (rs', p', mt, xt)"
    using prod_cases4 by blast
  from leaveLoop_rows[OF l] l show ?thesis by (simp add: arrange_def)
qed

lemma arrange_fields [simp]:
  "columns (arrange s) = columns s" "columnSum (arrange s) = columnSum s"
  "maxColumnValue (arrange s) = maxColumnValue s" "closed (arrange s) = closed s"
  "complex (arrange s) = complex s" "failed (arrange s) = failed s"
  by (auto simp: arrange_def split: prod.splits)

lemma totals_fields [simp]:
  "columns (totals s) = columns s" "columnSum (totals s) = columnSum s"
  "maxColumnValue (totals s) = maxColumnValue s" "closed (totals s) = True"
  "complex (totals s) = complex s" "failed (totals s) = failed s"
  "rows (totals s) = map (rowProducts (columnSum s)) (rows s)"
  "rowPermute (totals s) = rowPermute s"
  by (auto simp: totals_def)

lemma rowProducts_fields [simp]:
  "coeff (rowProducts cs r) = coeff r" "minSize (rowProducts cs r) = minSize r"
  "maxSize (rowProducts cs r) = (if maxSize r = UNBOUNDED then cs else maxSize r)"
  "name (rowProducts cs r) = name r"
  "minProduct (rowProducts cs r) = wrap (minSize r * coeff r)"
  "maxProduct (rowProducts cs r) = wrap ((if maxSize r = UNBOUNDED then cs else maxSize r) * coeff r)"
  "selection (rowProducts cs r) = selection r" "soluble (rowProducts cs r) = soluble r"
  by (simp_all add: rowProducts_def Let_def)

section \<open>The solubility vectors of a declared system\<close>

lemma completion_fields:
  "map coeff rs = map coeff rs' \<Longrightarrow> map maxSize rs = map maxSize rs' \<Longrightarrow>
   completion rs ks v = completion rs' ks v"
proof (induction rs arbitrary: rs' ks v)
  case Nil
  then show ?case by simp
next
  case (Cons r rs)
  then obtain r' rs1 where rs': "rs' = r' # rs1" by (cases rs') auto
  with Cons.prems have eq: "coeff r = coeff r'" "maxSize r = maxSize r'"
     "map coeff rs = map coeff rs1" "map maxSize rs = map maxSize rs1" by auto
  show ?case
  proof (cases ks)
    case Nil
    then show ?thesis using rs' by simp
  next
    case (Cons k ks')
    then show ?thesis using rs' eq Cons.IH[OF eq(3,4)] by simp
  qed
qed

lemma placesCopies_fields:
  "map coeff rs = map coeff rs' \<Longrightarrow> map maxSize rs = map maxSize rs' \<Longrightarrow>
   placesCopies rs v k = placesCopies rs' v k"
  unfolding placesCopies_def using completion_fields by blast

lemma in_arrangedRows:
  "r \<in> set (arrangedRows m rs) \<Longrightarrow> \<exists>l r0. r0 \<in> set rs \<and> r = arrangedRow m l r0"
  by (induction rs) auto

lemma map2_soluble_fields:
  "length tbls = length rs \<Longrightarrow>
     map coeff (map2 (\<lambda>r t. r\<lparr>soluble := t\<rparr>) rs tbls) = map coeff rs \<and>
     map maxSize (map2 (\<lambda>r t. r\<lparr>soluble := t\<rparr>) rs tbls) = map maxSize rs"
  by (induction rs tbls rule: list_induct2') auto

lemma validRow_declared:
  "list_all validRow ts \<Longrightarrow> r \<in> set (declaredRows n ts) \<Longrightarrow>
     coeff r > 0 \<and> 0 \<le> minSize r \<and> minSize r \<le> maxSize r"
  by (induction ts arbitrary: n) (auto simp: validRow_def declaredRow_def newRow_def)

lemma coeff_declared:
  "list_all (\<lambda>t. m + fst t \<le> b) ts \<Longrightarrow> r \<in> set (declaredRows n ts) \<Longrightarrow> m + coeff r \<le> b"
  by (induction ts arbitrary: n) (auto simp: declaredRow_def newRow_def)

lemma columnsSoluble_spec:
  assumes "\<forall>v\<in>set vs. 0 \<le> v \<and> v < int (length sol)"
  shows "columnsSoluble sol vs = Inr (\<forall>v\<in>set vs. \<not> min_s (sol ! nat v) < 0)"
  using assms by (induction vs) (auto simp: readSoluble_in)

lemma sum_list_pos_nonneg: "list_all (\<lambda>v. v > 0) vs \<Longrightarrow> (0::int) \<le> sum_list vs"
  by (induction vs) auto

lemma arranged_valid:
  assumes d: "declare_system ts vs = Inr s0" and rg: "tablesInRange ts vs"
    and r: "r \<in> set (rows (arrange (totals s0)))"
  shows "coeff r > 0 \<and> 0 \<le> minSize r \<and> 0 \<le> maxSize r \<and>
         maxColumnValue s0 + coeff r \<le> 2147483647"
proof -
  note s0 = declare_system_Inr[OF d]
  from r obtain l r0 where r0: "r0 \<in> set (rows (totals s0))" "r = arrangedRow (length (columns (totals s0))) l r0"
    using in_arrangedRows by (fastforce simp: rows_arrange)
  then obtain r1 where r1: "r1 \<in> set (rows s0)" "r0 = rowProducts (columnSum s0) r1" by auto
  have v1: "coeff r1 > 0 \<and> 0 \<le> minSize r1 \<and> minSize r1 \<le> maxSize r1"
    using validRow_declared[OF s0(2), of r1 0] r1(1) s0(1) by simp
  have "wrapSum vs = sum_list vs" using wrapSum_fits[OF s0(3)] rg by (simp add: tablesInRange_def)
  then have cs: "0 \<le> columnSum s0" using sum_list_pos_nonneg[OF s0(3)] s0(1) by simp
  have "fold max vs 0 + coeff r1 \<le> 2147483647"
    using coeff_declared[of "fold max vs 0" 2147483647 ts r1 0] rg r1(1) s0(1)
    by (simp add: tablesInRange_def)
  then have fc: "maxColumnValue s0 + coeff r1 \<le> 2147483647" using s0(1) by simp
  show ?thesis using v1 cs fc r0(2) r1(2) by auto
qed

lemma declared_mcv:
  assumes d: "declare_system ts vs = Inr s0"
  shows "0 \<le> maxColumnValue s0" and "\<forall>v\<in>set (columns s0). 0 < v \<and> v \<le> maxColumnValue s0"
proof -
  note s0 = declare_system_Inr[OF d]
  show "0 \<le> maxColumnValue s0" using fold_max_ge[of 0 vs] s0(1) by simp
  show "\<forall>v\<in>set (columns s0). 0 < v \<and> v \<le> maxColumnValue s0"
    using fold_max_bound[of _ vs 0] s0(1,3) by (auto simp: list_all_iff)
qed

lemma build_declared:
  assumes d: "declare_system ts vs = Inr s0" and ne: "rows s0 \<noteq> []" and rg: "tablesInRange ts vs"
  shows "\<exists>tbls. buildSolubilityVectors (arrange (totals s0)) =
            Inr ((arrange (totals s0))\<lparr>rows := map2 (\<lambda>r t. r\<lparr>soluble := t\<rparr>) (rows (arrange (totals s0))) tbls\<rparr>) \<and>
          length tbls = length (rows s0) \<and>
          (\<forall>i<length (rows s0). tableMeans (maxColumnValue s0) (drop i (rows (arrange (totals s0)))) (tbls ! i))"
proof -
  let ?s3 = "arrange (totals s0)"
  have len: "length (rows ?s3) = length (rows s0)" by (simp add: rows_arrange)
  then have ne3: "rows ?s3 \<noteq> []" using ne by auto
  have val: "\<forall>r\<in>set (rows ?s3). coeff r > 0 \<and> maxSize r \<ge> 0 \<and>
      maxColumnValue s0 + coeff r \<le> 2147483647"
    using arranged_valid[OF d rg] by blast
  from buildRows_spec[OF ne3 val declared_mcv(1)[OF d]] len
  obtain tbls where "buildRows (maxColumnValue s0) (rows ?s3) = Inr (map2 (\<lambda>r t. r\<lparr>soluble := t\<rparr>) (rows ?s3) tbls)"
    "length tbls = length (rows s0)"
    "\<forall>i<length (rows s0). tableMeans (maxColumnValue s0) (drop i (rows ?s3)) (tbls ! i)"
    by auto
  then show ?thesis by (auto simp: buildSolubilityVectors_def)
qed

lemma drop_map2:
  "drop i (map2 f xs ys) = map2 f (drop i xs) (drop i ys)"
  by (simp add: drop_map drop_zip)

text \<open>What \<^verbatim>\<open>precompute\<close> returns for a system that passes the check of the totals
  and is complex: the vectors are built, and the check of the columns sets one of the two
  flags.\<close>

lemma precompute_tables:
  assumes d: "declare_system ts vs = Inr s0" and ts: "ts \<noteq> []" and vs: "vs \<noteq> []"
    and rg: "tablesInRange ts vs" and pt: "passesTotals s0" and cx: "lastRowComplex s0"
  shows "\<exists>tbls ok. precompute s0 =
            Inr (ok, (arrange (totals s0))\<lparr>rows := map2 (\<lambda>r t. r\<lparr>soluble := t\<rparr>) (rows (arrange (totals s0))) tbls,
                        complex := ok, failed := \<not> ok\<rparr>) \<and>
          length tbls = length ts \<and>
          (\<forall>i<length ts. tableMeans (maxColumnValue s0) (drop i (rows (arrange (totals s0)))) (tbls ! i))"
proof -
  let ?s3 = "arrange (totals s0)"
  note s0 = declare_system_Inr[OF d]
  have ne: "rows s0 \<noteq> []" "columns s0 \<noteq> []" using s0(1) ts vs by (auto simp: neq_Nil_conv)
  have lr: "length (rows s0) = length ts" using s0(1) by simp
  from build_declared[OF d ne(1) rg] obtain tbls where
    b: "buildSolubilityVectors ?s3 = Inr (?s3\<lparr>rows := map2 (\<lambda>r t. r\<lparr>soluble := t\<rparr>) (rows ?s3) tbls\<rparr>)"
    and lt: "length tbls = length (rows s0)"
    and tm: "\<forall>i<length (rows s0). tableMeans (maxColumnValue s0) (drop i (rows ?s3)) (tbls ! i)"
    by blast
  let ?s4 = "?s3\<lparr>rows := map2 (\<lambda>r t. r\<lparr>soluble := t\<rparr>) (rows ?s3) tbls\<rparr>"
  have len3: "length (rows ?s3) = length (rows s0)" by (simp add: rows_arrange)
  have pos: "0 < length (rows s0)" using ne by simp
  have r4: "rows ?s4 \<noteq> []" using lt len3 pos by auto
  then have hd4: "hd (rows ?s4) = rows ?s4 ! 0" by (simp add: hd_conv_nth)
  have sol0: "soluble (rows ?s4 ! 0) = tbls ! 0" using lt len3 pos by simp
  have "tableMeans (maxColumnValue s0) (drop 0 (rows ?s3)) (tbls ! 0)" using tm pos by blast
  then have ltab: "int (length (tbls ! 0)) = maxColumnValue s0 + 1" by (simp add: tableMeans_def)
  have cols: "columns ?s4 = vs" using s0(1) by simp
  have inb: "\<forall>w\<in>set vs. 0 \<le> w \<and> w < int (length (tbls ! 0))"
    using declared_mcv(2)[OF d] ltab s0(1) by auto
  define ok where "ok = (\<forall>w\<in>set vs. \<not> min_s ((tbls ! 0) ! nat w) < 0)"
  have cs: "columnsSoluble (soluble (hd (rows ?s4))) (columns ?s4) = Inr ok"
    unfolding hd4 sol0 cols ok_def by (rule columnsSoluble_spec[OF inb])
  have nf: "\<not> failed ?s4" "\<not> complex ?s4" using s0(1) by simp_all
  have e1: "?s4\<lparr>complex := True\<rparr> = ?s4\<lparr>complex := True, failed := False\<rparr>" using nf by simp
  have e2: "?s4\<lparr>failed := True\<rparr> = ?s4\<lparr>complex := False, failed := True\<rparr>" using nf by simp
  have t1: "\<not> (wrapSum (map minProduct (rows (totals s0))) > columnSum (totals s0) \<or>
         wrapSum (map maxProduct (rows (totals s0))) < columnSum (totals s0))"
    using pt by (simp add: passesTotals_def)
  have t2: "coeff (last (rows ?s3)) > 1 \<or> maxSize (last (rows ?s3)) < maxColumnValue ?s3"
    using cx by (simp add: lastRowComplex_def)
  have "precompute s0 =
      (if ok then Inr (True, ?s4\<lparr>complex := True\<rparr>) else Inr (False, ?s4\<lparr>failed := True\<rparr>))"
    using ne t1 t2 b cs unfolding precompute_def Let_def by simp
  then have "precompute s0 = Inr (ok, ?s4\<lparr>complex := ok, failed := \<not> ok\<rparr>)"
    using e1 e2 by (cases ok) simp_all
  then show ?thesis using lt lr tm by auto
qed

lemma entryFor_insoluble_max:
  assumes e: "entryFor P e" and nn: "\<And>k. P k \<Longrightarrow> 0 \<le> k"
  shows "max_s e \<noteq> INSOLUBLE \<longleftrightarrow> (\<exists>k. P k)"
proof
  assume "max_s e \<noteq> INSOLUBLE"
  then show "\<exists>k. P k" using e by (auto simp: entryFor_def split: if_splits)
next
  assume "\<exists>k. P k"
  then have "P (max_s e)" using e by (auto simp: entryFor_def)
  then have "0 \<le> max_s e" using nn by blast
  then show "max_s e \<noteq> INSOLUBLE" by (simp add: INSOLUBLE_def)
qed

text \<open>Claim C3: take a declared system within the 32-bit range that passes the check of
  the totals and is complex. Then \<^verbatim>\<open>precompute\<close> returns, with a vector for every row,
  and it sets \<open>complex\<close> when the check of the columns accepts the system and \<open>failed\<close>
  when it rejects it. In either case, for every row position \<open>i\<close> of the sorted rows
  and every magnitude \<open>v\<close> from 0 to \<open>maxColumnValue\<close>, the entry \<open>soluble[v]\<close> of
  row \<open>i\<close> records the counts that the completions of the rows \<open>i..n-1\<close> place at a
  column of magnitude \<open>v\<close>: its \<open>min_s\<close> is the least and its \<open>max_s\<close> the
  greatest such count, and each of the two is \<^verbatim>\<open>INSOLUBLE\<close> exactly when there is no
  completion.\<close>

theorem soluble_entry_meaning:
  assumes "declare_system ts vs = Inr s0" and "ts \<noteq> []" and "vs \<noteq> []"
    and "tablesInRange ts vs" and "passesTotals s0" and "lastRowComplex s0"
  shows "\<exists>ok s. precompute s0 = Inr (ok, s) \<and> complex s = ok \<and> failed s = (\<not> ok) \<and>
           length (rows s) = length ts \<and> maxColumnValue s = fold max vs 0 \<and>
           (\<forall>i<length ts. \<forall>v. 0 \<le> v \<and> v \<le> fold max vs 0 \<longrightarrow>
              nat v < length (soluble (rows s ! i)) \<and>
              entryFor (placesCopies (drop i (rows s)) v) (soluble (rows s ! i) ! nat v) \<and>
              (min_s (soluble (rows s ! i) ! nat v) = INSOLUBLE \<longleftrightarrow>
                 \<not> (\<exists>ks. completion (drop i (rows s)) ks v)) \<and>
              (max_s (soluble (rows s ! i) ! nat v) = INSOLUBLE \<longleftrightarrow>
                 \<not> (\<exists>ks. completion (drop i (rows s)) ks v)))"
proof -
  let ?s3 = "arrange (totals s0)"
  note s0 = declare_system_Inr[OF assms(1)]
  from precompute_tables[OF assms] obtain tbls ok where
    p: "precompute s0 = Inr (ok, ?s3\<lparr>rows := map2 (\<lambda>r t. r\<lparr>soluble := t\<rparr>) (rows ?s3) tbls,
                        complex := ok, failed := \<not> ok\<rparr>)"
    and lt: "length tbls = length ts"
    and tm: "\<forall>i<length ts. tableMeans (maxColumnValue s0) (drop i (rows ?s3)) (tbls ! i)"
    by blast
  define s where "s = ?s3\<lparr>rows := map2 (\<lambda>r t. r\<lparr>soluble := t\<rparr>) (rows ?s3) tbls,
                        complex := ok, failed := \<not> ok\<rparr>"
  have len3: "length (rows ?s3) = length ts" using s0(1) by (simp add: rows_arrange)
  have rows_s: "rows s = map2 (\<lambda>r t. r\<lparr>soluble := t\<rparr>) (rows ?s3) tbls" by (simp add: s_def)
  have mcv: "maxColumnValue s = fold max vs 0" "maxColumnValue s0 = fold max vs 0"
    using s0(1) by (simp_all add: s_def)
  have ent: "\<And>i v. i < length ts \<Longrightarrow> 0 \<le> v \<Longrightarrow> v \<le> fold max vs 0 \<Longrightarrow>
      nat v < length (soluble (rows s ! i)) \<and>
      entryFor (placesCopies (drop i (rows s)) v) (soluble (rows s ! i) ! nat v) \<and>
      (min_s (soluble (rows s ! i) ! nat v) = INSOLUBLE \<longleftrightarrow>
         \<not> (\<exists>ks. completion (drop i (rows s)) ks v)) \<and>
      (max_s (soluble (rows s ! i) ! nat v) = INSOLUBLE \<longleftrightarrow>
         \<not> (\<exists>ks. completion (drop i (rows s)) ks v))"
  proof -
    fix i v assume i: "i < length ts" and v: "0 \<le> v" "v \<le> fold max vs 0"
    let ?e = "soluble (rows s ! i) ! nat v"
    let ?P = "placesCopies (drop i (rows s)) v"
    have sol: "soluble (rows s ! i) = tbls ! i" using rows_s i lt len3 by simp
    have tmi: "tableMeans (maxColumnValue s0) (drop i (rows ?s3)) (tbls ! i)" using tm i by blast
    then have "int (length (tbls ! i)) = fold max vs 0 + 1"
      using mcv(2) by (simp add: tableMeans_def)
    then have inb: "nat v < length (soluble (rows s ! i))"
      using sol v by (simp add: nat_less_iff)
    have "length (drop i tbls) = length (drop i (rows ?s3))" using lt len3 by simp
    from map2_soluble_fields[OF this]
    have f: "map coeff (drop i (rows s)) = map coeff (drop i (rows ?s3))"
            "map maxSize (drop i (rows s)) = map maxSize (drop i (rows ?s3))"
      unfolding rows_s drop_map2 by auto
    have "entryFor (placesCopies (drop i (rows ?s3)) v) (tbls ! i ! nat v)"
      using tmi v mcv(2) by (simp add: tableMeans_def)
    then have e: "entryFor ?P ?e"
      using entryFor_cong[of ?P "placesCopies (drop i (rows ?s3)) v"]
        placesCopies_fields[OF f] sol by simp
    have "i < length (rows s)" using rows_s i lt len3 by simp
    then obtain r rs where dr: "drop i (rows s) = r # rs"
      by (cases "drop i (rows s)") auto
    have nn: "\<And>k. ?P k \<Longrightarrow> 0 \<le> k" unfolding dr by (rule places_nonneg)
    have ex: "(\<exists>ks. completion (drop i (rows s)) ks v) \<longleftrightarrow> (\<exists>k. ?P k)"
    proof
      assume "\<exists>ks. completion (drop i (rows s)) ks v"
      then obtain ks where ks: "completion (r # rs) ks v" unfolding dr by blast
      then obtain k ks' where "ks = k # ks'" by (cases ks) auto
      with ks show "\<exists>k. ?P k" unfolding dr placesCopies_def by blast
    next
      assume "\<exists>k. ?P k"
      then show "\<exists>ks. completion (drop i (rows s)) ks v" unfolding placesCopies_def by blast
    qed
    from entryFor_insoluble[OF e nn] entryFor_insoluble_max[OF e nn] e ex inb
    show "nat v < length (soluble (rows s ! i)) \<and> entryFor ?P ?e \<and>
      (min_s ?e = INSOLUBLE \<longleftrightarrow> \<not> (\<exists>ks. completion (drop i (rows s)) ks v)) \<and>
      (max_s ?e = INSOLUBLE \<longleftrightarrow> \<not> (\<exists>ks. completion (drop i (rows s)) ks v))"
      by blast
  qed
  have "precompute s0 = Inr (ok, s)" using p by (simp add: s_def)
  moreover have "complex s = ok" "failed s = (\<not> ok)" by (simp_all add: s_def)
  moreover have "length (rows s) = length ts" using rows_s lt len3 by simp
  ultimately show ?thesis using mcv(1) ent by blast
qed

theorem soluble_entry_meaning_witness:
  "complex (snd (projr (precompute (projr (declare_system [(2, 0, 3), (3, 0, 2), (5, 0, 1)] [11]))))) \<and>
   soluble (rows (snd (projr (precompute (projr (declare_system [(2, 0, 3), (3, 0, 2), (5, 0, 1)] [11]))))) ! 0) ! nat 11
     = \<lparr>min_s = 0, max_s = 3\<rparr> \<and>
   entryFor (placesCopies (drop 0 (rows (snd (projr (precompute (projr (declare_system [(2, 0, 3), (3, 0, 2), (5, 0, 1)] [11]))))))) 11)
     \<lparr>min_s = 0, max_s = 3\<rparr> \<and>
   (\<exists>ks. completion (drop 0 (rows (snd (projr (precompute (projr (declare_system [(2, 0, 3), (3, 0, 2), (5, 0, 1)] [11]))))))) ks 11) \<and>
   failed (snd (projr (precompute (projr (declare_system [(2, 0, 5), (4, 0, 5)] [6, 3]))))) \<and>
   soluble (rows (snd (projr (precompute (projr (declare_system [(2, 0, 5), (4, 0, 5)] [6, 3]))))) ! 0) ! nat 3
     = insolubleEntry \<and>
   \<not> (\<exists>ks. completion (drop 0 (rows (snd (projr (precompute (projr (declare_system [(2, 0, 5), (4, 0, 5)] [6, 3]))))))) ks 3)"
proof -
  let ?init = "projr (declare_system [(2, 0, 3), (3, 0, 2), (5, 0, 1)] [11])"
  let ?fin = "snd (projr (precompute ?init))"
  have "\<not> isl (declare_system [(2, 0, 3), (3, 0, 2), (5, 0, 1)] [11])" by code_simp
  then have d: "declare_system [(2, 0, 3), (3, 0, 2), (5, 0, 1)] [11] = Inr ?init" by simp
  have n: "[(2, 0, 3), (3, 0, 2), (5::int, 0::int, 1::int)] \<noteq> []" "[11::int] \<noteq> []" by simp_all
  have rg: "tablesInRange [(2, 0, 3), (3, 0, 2), (5, 0, 1)] [11]" by code_simp
  have pt: "passesTotals ?init" by code_simp
  have cx: "lastRowComplex ?init" by code_simp
  from soluble_entry_meaning[OF d n rg pt cx] obtain ok s where
    p: "precompute ?init = Inr (ok, s)" and
    a: "\<forall>i<length [(2, 0, 3), (3, 0, 2), (5::int, 0::int, 1::int)]. \<forall>v. 0 \<le> v \<and> v \<le> fold max [11] 0 \<longrightarrow>
              nat v < length (soluble (rows s ! i)) \<and>
              entryFor (placesCopies (drop i (rows s)) v) (soluble (rows s ! i) ! nat v) \<and>
              (min_s (soluble (rows s ! i) ! nat v) = INSOLUBLE \<longleftrightarrow>
                 \<not> (\<exists>ks. completion (drop i (rows s)) ks v)) \<and>
              (max_s (soluble (rows s ! i) ! nat v) = INSOLUBLE \<longleftrightarrow>
                 \<not> (\<exists>ks. completion (drop i (rows s)) ks v))"
    by blast
  have s: "s = ?fin" using p by simp
  have e: "soluble (rows ?fin ! 0) ! nat 11 = \<lparr>min_s = 0, max_s = 3\<rparr>" by code_simp
  have c: "complex ?fin" by code_simp
  have "entryFor (placesCopies (drop 0 (rows ?fin)) 11) (soluble (rows ?fin ! 0) ! nat 11) \<and>
        (min_s (soluble (rows ?fin ! 0) ! nat 11) = INSOLUBLE \<longleftrightarrow>
           \<not> (\<exists>ks. completion (drop 0 (rows ?fin)) ks 11))"
    using a[rule_format, of 0 11] unfolding s by simp
  then have first: "entryFor (placesCopies (drop 0 (rows ?fin)) 11) \<lparr>min_s = 0, max_s = 3\<rparr> \<and>
        (\<exists>ks. completion (drop 0 (rows ?fin)) ks 11)"
    unfolding e by (simp add: INSOLUBLE_def)
  let ?init2 = "projr (declare_system [(2, 0, 5), (4, 0, 5)] [6, 3])"
  let ?fin2 = "snd (projr (precompute ?init2))"
  have "\<not> isl (declare_system [(2, 0, 5), (4, 0, 5)] [6, 3])" by code_simp
  then have d2: "declare_system [(2, 0, 5), (4, 0, 5)] [6, 3] = Inr ?init2" by simp
  have n2: "[(2, 0, 5), (4::int, 0::int, 5::int)] \<noteq> []" "[6, 3::int] \<noteq> []" by simp_all
  have rg2: "tablesInRange [(2, 0, 5), (4, 0, 5)] [6, 3]" by code_simp
  have pt2: "passesTotals ?init2" by code_simp
  have cx2: "lastRowComplex ?init2" by code_simp
  from soluble_entry_meaning[OF d2 n2 rg2 pt2 cx2] obtain ok2 s2 where
    p2: "precompute ?init2 = Inr (ok2, s2)" and
    a2: "\<forall>i<length [(2, 0, 5), (4::int, 0::int, 5::int)]. \<forall>v. 0 \<le> v \<and> v \<le> fold max [6, 3] 0 \<longrightarrow>
              nat v < length (soluble (rows s2 ! i)) \<and>
              entryFor (placesCopies (drop i (rows s2)) v) (soluble (rows s2 ! i) ! nat v) \<and>
              (min_s (soluble (rows s2 ! i) ! nat v) = INSOLUBLE \<longleftrightarrow>
                 \<not> (\<exists>ks. completion (drop i (rows s2)) ks v)) \<and>
              (max_s (soluble (rows s2 ! i) ! nat v) = INSOLUBLE \<longleftrightarrow>
                 \<not> (\<exists>ks. completion (drop i (rows s2)) ks v))"
    by blast
  have s2: "s2 = ?fin2" using p2 by simp
  have e2: "soluble (rows ?fin2 ! 0) ! nat 3 = insolubleEntry" by code_simp
  have f2: "failed ?fin2" by code_simp
  have "min_s (soluble (rows ?fin2 ! 0) ! nat 3) = INSOLUBLE \<longleftrightarrow>
           \<not> (\<exists>ks. completion (drop 0 (rows ?fin2)) ks 3)"
    using a2[rule_format, of 0 3] unfolding s2 by simp
  then have second: "\<not> (\<exists>ks. completion (drop 0 (rows ?fin2)) ks 3)"
    unfolding e2 by (simp add: insolubleEntry_def)
  show ?thesis using c e first f2 e2 second by blast
qed

section \<open>Infeasibility found by precompute\<close>

lemma countMultiples_length:
  "countMultiples mcv c mx j cnt s = Inr s' \<Longrightarrow> length s' = length s"
proof (induction mcv c mx j cnt s rule: countMultiples.induct)
  case (1 mcv c mx j cnt s)
  show ?case
  proof (cases "j \<le> mcv \<and> cnt \<le> mx")
    case False
    then show ?thesis using "1.prems"
      by (auto simp: countMultiples.simps[of mcv c mx j cnt s] split: if_splits)
  next
    case True
    show ?thesis
    proof (cases "0 \<le> j \<and> j < int (length s)")
      case False
      then show ?thesis using True "1.prems"
        by (auto simp: countMultiples.simps[of mcv c mx j cnt s] split: if_splits)
    next
      case inb: True
      have "countMultiples mcv c mx (wrap (j + c)) (cnt + 1) (s[nat j := \<lparr>min_s = cnt, max_s = cnt\<rparr>]) = Inr s'"
        using True inb "1.prems" by (simp add: countMultiples.simps[of mcv c mx j cnt s])
      from "1.IH"[OF True inb this] show ?thesis by simp
    qed
  qed
qed

lemma fillNext_length:
  "fillNext prev c mx mcv j nxt = Inr s \<Longrightarrow> length s = length nxt"
proof (induction prev c mx mcv j nxt rule: fillNext.induct)
  case (1 prev c mx mcv j nxt)
  show ?case
  proof (cases "j \<le> mcv")
    case False
    then show ?thesis using "1.prems"
      by (auto simp: fillNext.simps[of prev c mx mcv j nxt] split: if_splits)
  next
    case True
    from True "1.prems" obtain en where en: "nextEntry prev nxt c mx j = Inr en"
      and inb: "0 \<le> j \<and> j < int (length nxt)"
      and r: "fillNext prev c mx mcv (j + 1) (nxt[nat j := en]) = Inr s"
      by (auto simp: fillNext.simps[of prev c mx mcv j nxt] split: sum.splits if_splits)
    from "1.IH"[OF True en inb r] show ?thesis by simp
  qed
qed

lemma resizeSoluble_length:
  "resizeSoluble mcv s = Inr s' \<Longrightarrow> 0 \<le> wrap (mcv + 1) \<and> length s' = nat (wrap (mcv + 1))"
  by (auto simp: resizeSoluble_def split: if_splits)

lemma lastSoluble_length:
  assumes "lastSoluble mcv r = Inr s"
  shows "0 \<le> wrap (mcv + 1) \<and> length s = nat (wrap (mcv + 1))"
proof -
  from assms obtain s0 where s0: "resizeSoluble mcv (soluble r) = Inr s0"
    and c: "countMultiples mcv (coeff r) (maxSize r) 0 0
              (case s0 of [] \<Rightarrow> [] | x # xs \<Rightarrow> x # map (\<lambda>_. insolubleEntry) xs) = Inr s"
    by (auto simp: lastSoluble_def Let_def split: sum.splits)
  have "length (case s0 of [] \<Rightarrow> [] | x # xs \<Rightarrow> x # map (\<lambda>_. insolubleEntry) xs) = length s0"
    by (cases s0) auto
  then show ?thesis using countMultiples_length[OF c] resizeSoluble_length[OF s0] by simp
qed

lemma buildRows_hd:
  "buildRows mcv rs = Inr rs' \<Longrightarrow>
     rs' \<noteq> [] \<and> 0 \<le> wrap (mcv + 1) \<and> length (soluble (hd rs')) = nat (wrap (mcv + 1))"
proof (induction mcv rs arbitrary: rs' rule: buildRows.induct)
  case (1 mcv)
  then show ?case by simp
next
  case (2 mcv r)
  then obtain s where s: "lastSoluble mcv r = Inr s" "rs' = [r\<lparr>soluble := s\<rparr>]"
    by (auto split: sum.splits)
  then show ?case using lastSoluble_length[OF s(1)] by simp
next
  case (3 mcv r r' rs)
  from "3.prems" obtain rs1 nxt s where b: "buildRows mcv (r' # rs) = Inr rs1"
    and z: "resizeSoluble mcv (soluble r) = Inr nxt"
    and f: "fillNext (soluble (hd rs1)) (coeff r) (maxSize r) mcv 0 nxt = Inr s"
    and e: "rs' = r\<lparr>soluble := s\<rparr> # rs1"
    by (auto split: sum.splits)
  show ?case using fillNext_length[OF f] resizeSoluble_length[OF z] e by simp
qed

lemma solve_open:
  "\<not> closed s0 \<Longrightarrow> precompute s0 = Inr (False, s') \<Longrightarrow> solve s0 = Some (Inr (False, s'))"
  by (simp add: solve_def)

text \<open>Claim C8: for a declared system with at least one row and one column, if the sum of
  the minProducts exceeds \<open>columnSum\<close>, or the sum of the maxProducts is less than
  \<open>columnSum\<close>, or the system is complex (the test of \<^verbatim>\<open>precompute\<close> on the last
  sorted row) and the solubility vector of row 0 marks some inserted column value as
  \<^verbatim>\<open>INSOLUBLE\<close>, then the first \<^verbatim>\<open>solve()\<close> returns false and sets \<open>failed\<close>.
  The products and the sums are those that the program computes in 32 bits, and the
  arguments of the declaration are 32-bit values.\<close>

theorem first_solve_infeasible:
  assumes d: "declare_system ts vs = Inr s0" and "ts \<noteq> []" and "vs \<noteq> []"
    and rg: "int32Args ts vs"
    and bad: "wrapSum (map minProduct (rows (totals s0))) > columnSum s0 \<or>
       wrapSum (map maxProduct (rows (totals s0))) < columnSum s0 \<or>
       ((coeff (last (rows (arrange (totals s0)))) > 1 \<or>
         maxSize (last (rows (arrange (totals s0)))) < maxColumnValue s0) \<and>
        (\<exists>s4 v. buildSolubilityVectors (arrange (totals s0)) = Inr s4 \<and> v \<in> set vs \<and>
                min_s (soluble (rows s4 ! 0) ! nat v) = INSOLUBLE))"
  shows "\<exists>s'. solve s0 = Some (Inr (False, s')) \<and> failed s'"
proof -
  note s0 = declare_system_Inr[OF d]
  have op: "\<not> closed s0" using s0(1) by simp
  have ne: "rows s0 \<noteq> []" "columns s0 \<noteq> []"
    using s0(1) assms(2,3) by (auto simp: neq_Nil_conv)
  let ?s2 = "totals s0"
  let ?s3 = "arrange ?s2"
  show ?thesis
  proof (cases "wrapSum (map minProduct (rows ?s2)) > columnSum s0 \<or>
       wrapSum (map maxProduct (rows ?s2)) < columnSum s0")
    case True
    then have "precompute s0 = Inr (False, ?s2\<lparr>failed := True\<rparr>)"
      using ne by (auto simp: precompute_def Let_def)
    from solve_open[OF op this] show ?thesis by simp
  next
    case False
    with bad obtain s4 v where cx: "coeff (last (rows ?s3)) > 1 \<or> maxSize (last (rows ?s3)) < maxColumnValue s0"
      and b4: "buildSolubilityVectors ?s3 = Inr s4" and v: "v \<in> set vs"
      and ins: "min_s (soluble (rows s4 ! 0) ! nat v) = INSOLUBLE"
      by blast
    from b4 obtain rs4 where rs4: "buildRows (maxColumnValue s0) (rows ?s3) = Inr rs4"
      and s4: "s4 = ?s3\<lparr>rows := rs4\<rparr>"
      by (auto simp: buildSolubilityVectors_def split: sum.splits)
    from buildRows_hd[OF rs4] have r4: "rs4 \<noteq> []" and w: "0 \<le> wrap (maxColumnValue s0 + 1)"
      and ltab: "length (soluble (hd rs4)) = nat (wrap (maxColumnValue s0 + 1))" by auto
    have hd4: "hd (rows s4) = rows s4 ! 0" using r4 s4 by (simp add: hd_conv_nth)
    have m0: "0 \<le> maxColumnValue s0" by (rule declared_mcv(1)[OF d])
    have "\<forall>w\<in>set vs. w \<le> 2147483647" using rg by (auto simp: int32Args_def int32_def list_all_iff)
    then have "fold max vs 0 \<le> 2147483647"
      by (induction vs rule: rev_induct) auto
    then have m1: "maxColumnValue s0 \<le> 2147483647" using s0(1) by simp
    have m2: "maxColumnValue s0 \<noteq> 2147483647"
    proof
      assume "maxColumnValue s0 = 2147483647"
      then have "wrap (maxColumnValue s0 + 1) < 0" by (simp add: wrap_def)
      then show False using w by simp
    qed
    have "wrap (maxColumnValue s0 + 1) = maxColumnValue s0 + 1"
      using m0 m1 m2 by (intro wrap_id) linarith+
    then have len: "int (length (soluble (hd rs4))) = maxColumnValue s0 + 1" using ltab m0 by simp
    have cols: "columns s4 = vs" using s4 s0(1) by simp
    have inb: "\<forall>w\<in>set vs. 0 \<le> w \<and> w < int (length (soluble (hd rs4)))"
      using declared_mcv(2)[OF d] len s0(1) by auto
    have hdr: "hd (rows s4) = hd rs4" using s4 by simp
    have "columnsSoluble (soluble (hd (rows s4))) (columns s4)
        = Inr (\<forall>w\<in>set vs. \<not> min_s (soluble (hd rs4) ! nat w) < 0)"
      unfolding hdr cols by (rule columnsSoluble_spec[OF inb])
    moreover have "min_s (soluble (hd rs4) ! nat v) < 0"
      using ins hd4 hdr by (simp add: INSOLUBLE_def)
    then have "\<not> (\<forall>w\<in>set vs. \<not> min_s (soluble (hd rs4) ! nat w) < 0)"
      using v by blast
    ultimately have cs: "columnsSoluble (soluble (hd (rows s4))) (columns s4) = Inr False" by simp
    have mcv3: "maxColumnValue ?s3 = maxColumnValue s0" by simp
    have "precompute s0 = Inr (False, s4\<lparr>failed := True\<rparr>)"
      using ne False cx b4 cs mcv3 by (simp add: precompute_def Let_def)
    from solve_open[OF op this] show ?thesis by simp
  qed
qed

theorem first_solve_infeasible_witness:
  "solve (projr (declare_system [(2, 1, 10)] [5])) =
     Some (Inr (False, snd (projr (the (solve (projr (declare_system [(2, 1, 10)] [5]))))))) \<and>
   failed (snd (projr (the (solve (projr (declare_system [(2, 1, 10)] [5])))))) \<and>
   closed (snd (projr (the (solve (projr (declare_system [(2, 1, 10)] [5])))))) \<and>
   map soluble (rows (snd (projr (the (solve (projr (declare_system [(2, 1, 10)] [5])))))))
     = [[\<lparr>min_s = 0, max_s = 0\<rparr>, insolubleEntry, \<lparr>min_s = 1, max_s = 1\<rparr>, insolubleEntry,
         \<lparr>min_s = 2, max_s = 2\<rparr>, insolubleEntry]]"
proof -
  let ?init = "projr (declare_system [(2, 1, 10)] [5])"
  let ?mid = "arrange (totals ?init)"
  have "\<not> isl (declare_system [(2, 1, 10)] [5])" by code_simp
  then have d: "declare_system [(2, 1, 10)] [5] = Inr ?init" by simp
  have n: "[(2::int, 1::int, 10::int)] \<noteq> []" "[5::int] \<noteq> []" by simp_all
  have rg: "int32Args [(2, 1, 10)] [5]" by code_simp
  have "\<not> isl (buildSolubilityVectors ?mid)" by code_simp
  then have b: "buildSolubilityVectors ?mid = Inr (projr (buildSolubilityVectors ?mid))" by simp
  have cx: "coeff (last (rows ?mid)) > 1" by code_simp
  have ins: "min_s (soluble (rows (projr (buildSolubilityVectors ?mid)) ! 0) ! nat 5) = INSOLUBLE"
    by code_simp
  have bad: "wrapSum (map minProduct (rows (totals ?init))) > columnSum ?init \<or>
       wrapSum (map maxProduct (rows (totals ?init))) < columnSum ?init \<or>
       ((coeff (last (rows ?mid)) > 1 \<or> maxSize (last (rows ?mid)) < maxColumnValue ?init) \<and>
        (\<exists>s4 v. buildSolubilityVectors ?mid = Inr s4 \<and> v \<in> set [5] \<and>
                min_s (soluble (rows s4 ! 0) ! nat v) = INSOLUBLE))"
    using b cx ins by auto
  from first_solve_infeasible[OF d n rg bad]
  obtain s' where s': "solve ?init = Some (Inr (False, s'))" "failed s'" by auto
  have t: "map soluble (rows (snd (projr (the (solve ?init)))))
     = [[\<lparr>min_s = 0, max_s = 0\<rparr>, insolubleEntry, \<lparr>min_s = 1, max_s = 1\<rparr>, insolubleEntry,
         \<lparr>min_s = 2, max_s = 2\<rparr>, insolubleEntry]]" by code_simp
  have c: "closed (snd (projr (the (solve ?init))))" by code_simp
  show ?thesis using s' t c by simp
qed

section \<open>The search keeps the columns in balance\<close>

lemma selOK_Nil [simp]: "selOK []" by (simp add: selOK_def)

lemma selOK_Cons [simp]: "selOK (s # ss) \<longleftrightarrow> 0 \<le> extra s \<and> extra s \<le> maxExtra s \<and> selOK ss"
  by (auto simp: selOK_def)

lemma sumExtra_simps [simp]: "sumExtra [] = 0" "sumExtra (s # ss) = extra s + sumExtra ss"
  by (simp_all add: sumExtra_def)

lemma sumCap_simps [simp]: "sumCap [] = 0" "sumCap (s # ss) = maxExtra s + sumCap ss"
  by (simp_all add: sumCap_def)

lemma sumBase_simps [simp]: "sumBase [] = 0" "sumBase (s # ss) = base s + sumBase ss"
  by (simp_all add: sumBase_def)

lemma putBack_simps [simp]: "putBack c [] bag = []" "putBack c sel [] = []"
  "putBack c (s # ss) (b # bs) = (b + (base s + extra s) * c) # putBack c ss bs"
  by (simp_all add: putBack_def)

lemma sameShape_refl [simp]: "sameShape sel sel" by (simp add: sameShape_def)

lemma sameShape_Cons [simp]:
  "sameShape (s # ss) (s' # ss') \<longleftrightarrow> base s' = base s \<and> maxExtra s' = maxExtra s \<and> sameShape ss ss'"
  by (auto simp: sameShape_def)

lemma sameShape_length: "sameShape sel sel' \<Longrightarrow> length sel' = length sel"
  unfolding sameShape_def by (metis length_map)

lemma sameShape_trans: "sameShape a b \<Longrightarrow> sameShape b c \<Longrightarrow> sameShape a c"
  by (simp add: sameShape_def)

lemma sameShape_sums: "sameShape sel sel' \<Longrightarrow> sumCap sel' = sumCap sel \<and> sumBase sel' = sumBase sel"
  by (simp add: sameShape_def sumCap_def sumBase_def)

lemma roomFor_nonpos [simp]: "u \<le> 0 \<Longrightarrow> roomFor u ss"
  by (cases ss) auto

lemma roomFor_mono: "roomFor a ss \<Longrightarrow> b \<le> a \<Longrightarrow> roomFor b ss"
proof (induction ss arbitrary: a b)
  case Nil
  then show ?case by simp
next
  case (Cons s ss)
  show ?case
  proof (cases "b \<le> 0")
    case True
    then show ?thesis by simp
  next
    case False
    with Cons.prems have "extra s = 0" "0 \<le> maxExtra s" "roomFor (a - maxExtra s) ss" by auto
    moreover have "b - maxExtra s \<le> a - maxExtra s" using Cons.prems by simp
    ultimately show ?thesis using Cons.IH by auto
  qed
qed

lemma roomFor_zeros:
  "\<forall>s\<in>set sel. extra s = 0 \<and> 0 \<le> maxExtra s \<Longrightarrow> u \<le> sumCap sel \<Longrightarrow> roomFor u sel"
proof (induction sel arbitrary: u)
  case Nil
  then show ?case by simp
next
  case (Cons s ss)
  have "u - maxExtra s \<le> sumCap ss" using Cons.prems by simp
  then have "roomFor (u - maxExtra s) ss" using Cons by simp
  then show ?case using Cons.prems by simp
qed

lemma forwardsSimple_spec:
  assumes "length sel = length bag" "roomFor u sel"
  shows "\<exists>sel' bag'. forwardsSimple c u sel bag = Inr (sel', bag') \<and> length bag' = length bag \<and>
           sameShape sel sel' \<and> putBack c sel' bag' = putBack c sel bag \<and>
           sumExtra sel' = sumExtra sel + max 0 u \<and> (selOK sel \<longrightarrow> selOK sel')"
  using assms
proof (induction c u sel bag rule: forwardsSimple.induct)
  case (1 c undone s ss b bs)
  show ?case
  proof (cases "undone > 0")
    case False
    then show ?thesis by simp
  next
    case True
    with "1.prems" have z: "extra s = 0" "0 \<le> maxExtra s" "roomFor (undone - maxExtra s) ss" by auto
    define t where "t = min undone (maxExtra s)"
    have tb: "t \<le> undone" "t \<le> maxExtra s" by (simp_all add: t_def)
    show ?thesis
    proof (cases "t > 0")
      case t: True
      have "undone - t \<le> 0 \<or> t = maxExtra s" by (auto simp: t_def min_def)
      then have rf: "roomFor (undone - t) ss" using z(3) by auto
      have t': "0 < min undone (maxExtra s)" using t by (simp add: t_def)
      from "1.IH"(1)[OF True refl t'] rf "1.prems"(1)
      obtain ss' bs' where r: "forwardsSimple c (undone - t) ss bs = Inr (ss', bs')" "length bs' = length bs"
         "sameShape ss ss'" "putBack c ss' bs' = putBack c ss bs"
         "sumExtra ss' = sumExtra ss + max 0 (undone - t)" "selOK ss \<longrightarrow> selOK ss'"
        unfolding t_def by auto
      have res: "forwardsSimple c undone (s # ss) (b # bs) = Inr (s\<lparr>extra := t\<rparr> # ss', (b - t * c) # bs')"
        using True t' r(1) by (simp add: Let_def t_def)
      have mx: "max 0 (undone - t) = undone - t" using tb by simp
      have pb: "putBack c (s\<lparr>extra := t\<rparr> # ss') ((b - t * c) # bs') = putBack c (s # ss) (b # bs)"
        using r(4) z(1) by (simp add: algebra_simps)
      have se: "sumExtra (s\<lparr>extra := t\<rparr> # ss') = sumExtra (s # ss) + max 0 undone"
        using r(5) mx z(1) True by simp
      have ok: "selOK (s # ss) \<longrightarrow> selOK (s\<lparr>extra := t\<rparr> # ss')"
        using r(6) t tb by simp
      have sh: "sameShape (s # ss) (s\<lparr>extra := t\<rparr> # ss')" using r(3) by simp
      have ln: "length ((b - t * c) # bs') = length (b # bs)" using r(2) by simp
      show ?thesis using res ln sh pb se ok by blast
    next
      case t: False
      then have m0: "maxExtra s = 0" using True z(2) by (auto simp: t_def min_def split: if_splits)
      have rf: "roomFor undone ss" using z(3) m0 by simp
      have t': "\<not> 0 < min undone (maxExtra s)" using t by (simp add: t_def)
      from "1.IH"(2)[OF True refl t'] rf "1.prems"(1)
      obtain ss' bs' where r: "forwardsSimple c undone ss bs = Inr (ss', bs')" "length bs' = length bs"
         "sameShape ss ss'" "putBack c ss' bs' = putBack c ss bs"
         "sumExtra ss' = sumExtra ss + max 0 undone" "selOK ss \<longrightarrow> selOK ss'"
        by auto
      have res: "forwardsSimple c undone (s # ss) (b # bs) = Inr (s # ss', b # bs')"
        using True t' r(1) by (simp add: Let_def)
      have pb: "putBack c (s # ss') (b # bs') = putBack c (s # ss) (b # bs)" using r(4) by simp
      have se: "sumExtra (s # ss') = sumExtra (s # ss) + max 0 undone" using r(5) by simp
      have ok: "selOK (s # ss) \<longrightarrow> selOK (s # ss')" using r(6) by simp
      have sh: "sameShape (s # ss) (s # ss')" using r(3) by simp
      have ln: "length (b # bs') = length (b # bs)" using r(2) by simp
      show ?thesis using res ln sh pb se ok by blast
    qed
  qed
next
  case (2 c undone sel)
  then show ?case by (cases sel) auto
next
  case (3 c undone b bs)
  then show ?case by simp
qed

lemma scanOK_release:
  assumes "scanOK c (u + extra s) ss bs r" "0 \<le> extra s" "extra s \<le> maxExtra s"
  shows "scanOK c u (s # ss) (b # bs) (releaseColumn s b c r)"
proof (cases r)
  case (Lifted ss' bs' u')
  with assms have r: "length bs' = length bs" "sameShape ss ss'" "putBack c ss' bs' = putBack c ss bs"
     "selOK ss'" "0 \<le> u'" "sumExtra ss' + u' = sumExtra ss + (u + extra s)" "roomFor (u' - (u + extra s)) ss'"
    by (auto simp: scanOK_def)
  have "u' - u - maxExtra s \<le> u' - (u + extra s)" using assms(3) by simp
  then have "roomFor (u' - u - maxExtra s) ss'" using r(7) roomFor_mono by blast
  then have rf: "roomFor (u' - u) (s\<lparr>extra := 0\<rparr> # ss')" using assms(2,3) by simp
  show ?thesis using Lifted r(1-6) rf assms(2,3)
    by (simp add: scanOK_def algebra_simps)
next
  case (Exhausted ss' bs')
  with assms show ?thesis by (simp add: scanOK_def algebra_simps)
qed

lemma scanOK_keep:
  assumes "scanOK c u ss bs r" "extra s = 0" "0 \<le> maxExtra s"
  shows "scanOK c u (s # ss) (b # bs) (keepColumn s b r)"
proof (cases r)
  case (Lifted ss' bs' u')
  with assms have r: "length bs' = length bs" "sameShape ss ss'" "putBack c ss' bs' = putBack c ss bs"
     "selOK ss'" "0 \<le> u'" "sumExtra ss' + u' = sumExtra ss + u" "roomFor (u' - u) ss'"
    by (auto simp: scanOK_def)
  have "u' - u - maxExtra s \<le> u' - u" using assms(3) by simp
  then have "roomFor (u' - u - maxExtra s) ss'" using r(7) roomFor_mono by blast
  then have rf: "roomFor (u' - u) (s # ss')" using assms(2,3) by simp
  show ?thesis using Lifted r(1-6) rf assms(2,3)
    by (simp add: scanOK_def)
next
  case (Exhausted ss' bs')
  with assms show ?thesis by (simp add: scanOK_def)
qed

lemma backtrackSimple_spec:
  assumes "length sel = length bag" "selOK sel" "0 \<le> u"
  shows "\<exists>r. backtrackSimple c u sel bag = Inr r \<and> scanOK c u sel bag r"
  using assms
proof (induction c u sel bag rule: backtrackSimple.induct)
  case (1 c undone s ss b bs)
  have ok: "0 \<le> extra s" "extra s \<le> maxExtra s" "selOK ss" using "1.prems"(2) by auto
  have len: "length ss = length bs" using "1.prems"(1) by simp
  show ?case
  proof (cases "undone > 0 \<and> extra s < maxExtra s")
    case True
    have "backtrackSimple c undone (s # ss) (b # bs) =
            Inr (Lifted (s\<lparr>extra := extra s + 1\<rparr> # ss) ((b - c) # bs) (undone - 1))"
      using True ok by simp
    moreover have "scanOK c undone (s # ss) (b # bs)
            (Lifted (s\<lparr>extra := extra s + 1\<rparr> # ss) ((b - c) # bs) (undone - 1))"
      using True ok by (simp add: scanOK_def algebra_simps)
    ultimately show ?thesis by blast
  next
    case False
    show ?thesis
    proof (cases "extra s > 0")
      case e: True
      have u: "0 \<le> undone + extra s" using "1.prems"(3) ok by simp
      from "1.IH"(1)[OF _ False e len ok(3) u] ok
      obtain r where r: "backtrackSimple c (undone + extra s) ss bs = Inr r"
           "scanOK c (undone + extra s) ss bs r" by auto
      have "backtrackSimple c undone (s # ss) (b # bs) = Inr (releaseColumn s b c r)"
        using False e ok r(1) by auto
      then show ?thesis using scanOK_release[OF r(2) ok(1,2)] by blast
    next
      case e: False
      then have e0: "extra s = 0" using ok by simp
      from "1.IH"(2)[OF _ False e len ok(3) "1.prems"(3)] ok
      obtain r where r: "backtrackSimple c undone ss bs = Inr r" "scanOK c undone ss bs r" by auto
      have "backtrackSimple c undone (s # ss) (b # bs) = Inr (keepColumn s b r)"
        using False e ok r(1) by auto
      then show ?thesis using scanOK_keep[OF r(2) e0] ok e0 by auto
    qed
  qed
next
  case (2 c undone sel)
  then show ?case by (simp add: scanOK_def)
next
  case (3 c undone b bs)
  then show ?case by simp
qed

text \<open>complex path\<close>

lemma probe_Some:
  "probe sol c t mxe undone e cv = Inr (Some (e', cv')) \<Longrightarrow>
     e \<le> e' \<and> e' \<le> undone \<and> t + e' \<le> mxe \<and> cv' = cv - (e' - e + 1) * c"
proof (induction sol c t mxe undone e cv rule: probe.induct)
  case (1 sol c t mxe undone e cv)
  from "1.prems" have le: "e \<le> undone" "t + e \<le> mxe"
    by (subst (asm) probe.simps, simp split: if_splits)+
  from "1.prems" le obtain en where en: "readSoluble sol (cv - c) = Inr en"
    by (subst (asm) probe.simps) (auto split: sum.splits)
  show ?case
  proof (cases "min_s en \<noteq> INSOLUBLE")
    case True
    with "1.prems" le en have "e' = e" "cv' = cv - c"
      by (subst (asm) probe.simps, simp)+
    then show ?thesis using le by simp
  next
    case False
    with "1.prems" le en have "probe sol c t mxe undone (e + 1) (cv - c) = Inr (Some (e', cv'))"
      by (subst (asm) probe.simps) simp
    from "1.IH"[OF le(1) _ en False this] le
    show ?thesis by (simp add: algebra_simps)
  qed
qed

lemma backtrackComplex_spec:
  assumes "backtrackComplex sol c u sel bag = Inr r" "length sel = length bag" "selOK sel" "0 \<le> u"
  shows "scanOK c u sel bag r"
  using assms
proof (induction sol c u sel bag arbitrary: r rule: backtrackComplex.induct)
  case (1 sol c undone s ss b bs)
  have ok: "0 \<le> extra s" "extra s \<le> maxExtra s" "selOK ss" using "1.prems"(3) by auto
  have len: "length ss = length bs" using "1.prems"(2) by simp
  define pr where "pr = (if undone > 0 \<and> extra s < maxExtra s
               then probe sol c (extra s) (maxExtra s) undone 1 b else Inr None)"
  from "1.prems"(1) ok obtain po where po: "pr = Inr po"
    by (cases pr) (auto simp: pr_def)
  show ?case
  proof (cases po)
    case (Some p)
    obtain e cv where p: "p = (e, cv)" by (cases p)
    have pr': "probe sol c (extra s) (maxExtra s) undone 1 b = Inr (Some (e, cv))"
      using po Some p by (auto simp: pr_def split: if_splits)
    from probe_Some[OF pr'] have e: "1 \<le> e" "e \<le> undone" "extra s + e \<le> maxExtra s" "cv = b - e * c"
      by auto
    have "r = Lifted (s\<lparr>extra := extra s + e\<rparr> # ss) (cv # bs) (undone - e)"
      using "1.prems"(1) ok po Some p unfolding pr_def[symmetric] by (simp add: pr_def[symmetric])
    then show ?thesis using e ok by (simp add: scanOK_def algebra_simps)
  next
    case None
    have pn: "(if undone > 0 \<and> extra s < maxExtra s
               then probe sol c (extra s) (maxExtra s) undone 1 b else Inr None) = Inr None"
      using po None by (simp add: pr_def)
    show ?thesis
    proof (cases "extra s > 0")
      case e: True
      from "1.prems"(1) ok pn e obtain r1 where r1: "backtrackComplex sol c (undone + extra s) ss bs = Inr r1"
          "r = releaseColumn s b c r1"
        by (auto split: sum.splits)
      have u: "0 \<le> undone + extra s" using "1.prems"(4) ok by simp
      have "scanOK c (undone + extra s) ss bs r1"
        using "1.IH"(1)[OF _ pn refl e r1(1) len ok(3) u] ok by simp
      from scanOK_release[OF this ok(1,2)] r1(2) show ?thesis by simp
    next
      case e: False
      then have e0: "extra s = 0" using ok by simp
      from "1.prems"(1) ok pn e obtain r1 where r1: "backtrackComplex sol c undone ss bs = Inr r1"
          "r = keepColumn s b r1"
        by (auto split: sum.splits)
      have "scanOK c undone ss bs r1"
        using "1.IH"(2)[OF _ pn refl e r1(1) len ok(3) "1.prems"(4)] ok by simp
      from scanOK_keep[OF this e0] r1(2) ok e0 show ?thesis by simp
    qed
  qed
next
  case (2 sol c undone sel)
  then show ?case by (auto simp: scanOK_def)
next
  case (3 sol c undone b bs)
  then show ?case by simp
qed

lemma placing_cons [simp]:
  "placingSel (consPlacing s b r) = s # placingSel r"
  "placingBag (consPlacing s b r) = b # placingBag r"
  by (cases r; simp)+

lemma placedOK_refl: "u \<le> 0 \<Longrightarrow> placedOK c u sel bag sel bag"
  by (simp add: placedOK_def)

lemma forwardsSimple_placed:
  assumes "length sel = length bag" "roomFor u sel"
  shows "\<exists>sel' bag'. forwardsSimple c u sel bag = Inr (sel', bag') \<and> placedOK c u sel bag sel' bag'"
  using forwardsSimple_spec[OF assms, of c] unfolding placedOK_def by blast

lemma forwardsComplex_spec:
  assumes "forwardsComplex sol c u sel bag = Inr r" "length sel = length bag" "roomFor u sel"
  shows "placedOK c u sel bag (placingSel r) (placingBag r)"
  using assms
proof (induction sol c u sel bag arbitrary: r rule: forwardsComplex.induct)
  case (1 sol c undone s ss b bs)
  have len: "length ss = length bs" using "1.prems"(2) by simp
  show ?case
  proof (cases "undone > 0")
    case False
    then have "r = Placed (s # ss) (b # bs)" using "1.prems"(1) by simp
    then show ?thesis using False by (simp add: placedOK_def)
  next
    case True
    with "1.prems"(3) have z: "extra s = 0" "0 \<le> maxExtra s" "roomFor (undone - maxExtra s) ss" by auto
    show ?thesis
    proof (cases "maxExtra s \<le> undone")
      case le: True
      show ?thesis
      proof (cases "maxExtra s > 0")
        case pos: True
        from "1.prems"(1) True le pos obtain r1 where
          r1: "forwardsComplex sol c (undone - maxExtra s) ss bs = Inr r1"
              "r = consPlacing (s\<lparr>extra := maxExtra s\<rparr>) (b - maxExtra s * c) r1"
          by (auto simp: Let_def split: sum.splits)
        from "1.IH"(1)[OF True refl le pos r1(1) len z(3)]
        have p: "placedOK c (undone - maxExtra s) ss bs (placingSel r1) (placingBag r1)" .
        have mx: "max 0 (undone - maxExtra s) = undone - maxExtra s" using le by simp
        show ?thesis using p z True pos unfolding r1(2) placedOK_def mx
          by (simp add: algebra_simps)
      next
        case pos: False
        then have m0: "maxExtra s = 0" using z(2) by simp
        from "1.prems"(1) True le pos obtain r1 where
          r1: "forwardsComplex sol c undone ss bs = Inr r1" "r = consPlacing s b r1"
          by (auto simp: Let_def split: sum.splits)
        have rf: "roomFor undone ss" using z(3) m0 by simp
        from "1.IH"(2)[OF True refl le pos r1(1) len rf]
        have p: "placedOK c undone ss bs (placingSel r1) (placingBag r1)" .
        show ?thesis using p z unfolding r1(2) placedOK_def by simp
      qed
    next
      case gt: False
      from "1.prems"(1) True gt
      have "placingSel r = s\<lparr>extra := undone\<rparr> # ss \<and> placingBag r = (b - undone * c) # bs"
        by (auto simp: Let_def split: sum.splits if_splits)
      then show ?thesis using z True gt by (simp add: placedOK_def algebra_simps)
    qed
  qed
next
  case (2 sol c undone sel)
  then show ?case by (cases sel) (auto simp: placedOK_def split: if_splits)
next
  case (3 sol c undone b bs)
  then show ?case by simp
qed

lemma retry_after_scan:
  assumes sc: "scanOK c 0 sel bag (Lifted sel1 bag1 u)" and len: "length sel = length bag"
    and pl: "placedOK c u sel1 bag1 sel2 bag2"
  shows "length sel2 = length bag2 \<and> selOK sel2 \<and> length bag2 = length bag \<and> sameShape sel sel2 \<and>
         putBack c sel2 bag2 = putBack c sel bag \<and> sumExtra sel2 = sumExtra sel"
proof -
  from sc have s: "length bag1 = length bag" "sameShape sel sel1" "putBack c sel1 bag1 = putBack c sel bag"
     "selOK sel1" "0 \<le> u" "sumExtra sel1 + u = sumExtra sel"
    by (auto simp: scanOK_def)
  from pl have p: "length bag2 = length bag1" "sameShape sel1 sel2" "putBack c sel2 bag2 = putBack c sel1 bag1"
     "sumExtra sel2 = sumExtra sel1 + max 0 u" "selOK sel1 \<longrightarrow> selOK sel2"
    by (auto simp: placedOK_def)
  have "length sel2 = length sel" using sameShape_length[OF p(2)] sameShape_length[OF s(2)] by simp
  then show ?thesis using s p len sameShape_trans[OF s(2) p(2)] by auto
qed

lemma backtrackLoop_spec:
  assumes "backtrackLoop sol c sel bag = Some (Inr (ok, sel', bag'))"
    and "length sel = length bag" and "selOK sel"
  shows "retryOK c sel bag ok sel' bag'"
proof -
  have "\<forall>ok sel' bag'. y = Inr (ok, sel', bag') \<longrightarrow> length sel = length bag \<longrightarrow> selOK sel \<longrightarrow>
             retryOK c sel bag ok sel' bag'" if "backtrackLoop sol c sel bag = Some y" for y
  proof (rule backtrackLoop.raw_induct[where P = "\<lambda>sol c sel bag y.
            \<forall>ok sel' bag'. y = Inr (ok, sel', bag') \<longrightarrow> length sel = length bag \<longrightarrow> selOK sel \<longrightarrow>
             retryOK c sel bag ok sel' bag'", OF _ that], goal_cases)
    case (1 loop sol c sel bag y)
    show ?case
    proof (intro allI impI)
      fix ok sel' bag'
      assume y: "y = Inr (ok, sel', bag')" and len: "length sel = length bag" and sok: "selOK sel"
      from 1(2) y obtain r where r: "backtrackComplex sol c 0 sel bag = Inr r"
        by (auto split: sum.splits)
      from backtrackComplex_spec[OF r len sok] have sc: "scanOK c 0 sel bag r" by simp
      show "retryOK c sel bag ok sel' bag'"
      proof (cases r)
        case (Exhausted sel1 bag1)
        with 1(2) y r have "ok = False" "sel' = sel1" "bag' = bag1" by auto
        then show ?thesis using sc Exhausted by (simp add: retryOK_def scanOK_def)
      next
        case (Lifted sel1 bag1 u)
        from sc Lifted have rf: "roomFor u sel1" and l1: "length sel1 = length bag1"
          using len by (auto simp: scanOK_def dest: sameShape_length)
        from 1(2) y r Lifted obtain p where p: "forwardsComplex sol c u sel1 bag1 = Inr p"
          by (auto split: sum.splits)
        from forwardsComplex_spec[OF p l1 rf]
        have pl: "placedOK c u sel1 bag1 (placingSel p) (placingBag p)" .
        from retry_after_scan[OF sc[unfolded Lifted] len pl]
        have a: "length (placingSel p) = length (placingBag p)" "selOK (placingSel p)"
           "length (placingBag p) = length bag" "sameShape sel (placingSel p)"
           "putBack c (placingSel p) (placingBag p) = putBack c sel bag"
           "sumExtra (placingSel p) = sumExtra sel" by auto
        show ?thesis
        proof (cases p)
          case (Placed sel2 bag2)
          with 1(2) y r Lifted p have "ok = True" "sel' = sel2" "bag' = bag2" by auto
          then show ?thesis using a Placed by (simp add: retryOK_def)
        next
          case (Stuck sel2 bag2)
          with 1(2) y r Lifted p have lp: "loop sol c sel2 bag2 = Some (Inr (ok, sel', bag'))" by auto
          have l2: "length sel2 = length bag2" "selOK sel2" using a(1,2) Stuck by simp_all
          have "retryOK c sel2 bag2 ok sel' bag'"
            by (rule 1(1)[OF lp, rule_format, OF refl l2])
          then show ?thesis using a(3-6) Stuck
            by (auto simp: retryOK_def dest: sameShape_trans)
        qed
      qed
    qed
  qed
  then show ?thesis using assms by blast
qed

lemma allZero_simps [simp]: "allZero []" "allZero (s # ss) \<longleftrightarrow> extra s = 0 \<and> 0 \<le> maxExtra s \<and> allZero ss"
  by (auto simp: allZero_def)

lemma allZero_selOK: "allZero sel \<Longrightarrow> selOK sel \<and> sumExtra sel = 0"
  by (induction sel) auto

lemma allZero_roomFor: "allZero sel \<Longrightarrow> u \<le> sumCap sel \<Longrightarrow> roomFor u sel"
  using roomFor_zeros by (simp add: allZero_def)

lemma zero_extras:
  "selOK sel \<Longrightarrow> sumExtra sel \<le> 0 \<Longrightarrow> \<forall>x\<in>set sel. extra x = 0"
proof (induction sel)
  case Nil
  then show ?case by simp
next
  case (Cons s ss)
  have nn: "0 \<le> sumExtra ss" using Cons.prems(1)
    by (induction ss) auto
  then have "extra s = 0" "sumExtra ss \<le> 0" using Cons.prems by auto
  then show ?case using Cons by auto
qed

lemma sameShape_zero:
  "sameShape sel sel' \<Longrightarrow> selOK sel \<Longrightarrow> \<forall>x\<in>set sel'. extra x = 0 \<Longrightarrow> allZero sel'"
proof (induction sel arbitrary: sel')
  case Nil
  then show ?case by (simp add: sameShape_def)
next
  case (Cons s ss)
  then obtain s' ss' where "sel' = s' # ss'" by (cases sel') (auto simp: sameShape_def)
  with Cons show ?case by auto
qed

lemma multisetSelect_first:
  assumes "length (selection r) = length bag" "roomFor (currentSize r) (selection r)"
  shows "\<exists>sel' bag'. multisetSelect r bag True = Inr (True, r\<lparr>selection := sel'\<rparr>, bag') \<and>
           placedOK (coeff r) (currentSize r) (selection r) bag sel' bag'"
proof -
  from forwardsSimple_placed[OF assms, of "coeff r"] obtain sel' bag' where
    "forwardsSimple (coeff r) (currentSize r) (selection r) bag = Inr (sel', bag')"
    "placedOK (coeff r) (currentSize r) (selection r) bag sel' bag'" by blast
  then show ?thesis by (auto simp: multisetSelect_def)
qed

lemma multisetSelect_retry:
  assumes len: "length (selection r) = length bag" and ok: "selOK (selection r)"
    and sz: "sumExtra (selection r) = currentSize r"
  shows "\<exists>ok sel' bag'. multisetSelect r bag False = Inr (ok, r\<lparr>selection := sel'\<rparr>, bag') \<and>
           retryOK (coeff r) (selection r) bag ok sel' bag'"
proof (cases "currentSize r > 0")
  case False
  then have "\<forall>x\<in>set (selection r). extra x = 0" using zero_extras[OF ok] sz by simp
  then have "retryOK (coeff r) (selection r) bag False (selection r) bag"
    by (simp add: retryOK_def)
  moreover have "multisetSelect r bag False = Inr (False, r\<lparr>selection := selection r\<rparr>, bag)"
    using False by (simp add: multisetSelect_def)
  ultimately show ?thesis by blast
next
  case True
  from backtrackSimple_spec[OF len ok order_refl, of "coeff r"] obtain sc where
    sc: "backtrackSimple (coeff r) 0 (selection r) bag = Inr sc" "scanOK (coeff r) 0 (selection r) bag sc"
    by blast
  show ?thesis
  proof (cases sc)
    case (Exhausted sel1 bag1)
    then have "multisetSelect r bag False = Inr (False, r\<lparr>selection := sel1\<rparr>, bag1)"
      using True sc(1) by (simp add: multisetSelect_def)
    moreover have "retryOK (coeff r) (selection r) bag False sel1 bag1"
      using sc(2) Exhausted by (simp add: scanOK_def retryOK_def)
    ultimately show ?thesis by blast
  next
    case (Lifted sel1 bag1 u)
    from sc(2) Lifted have rf: "roomFor u sel1" and l1: "length sel1 = length bag1"
      using len by (auto simp: scanOK_def dest: sameShape_length)
    from forwardsSimple_placed[OF l1 rf, of "coeff r"] obtain sel2 bag2 where
      f: "forwardsSimple (coeff r) u sel1 bag1 = Inr (sel2, bag2)" "placedOK (coeff r) u sel1 bag1 sel2 bag2"
      by blast
    from retry_after_scan[OF sc(2)[unfolded Lifted] len f(2)]
    have "retryOK (coeff r) (selection r) bag True sel2 bag2" by (simp add: retryOK_def)
    moreover have "multisetSelect r bag False = Inr (True, r\<lparr>selection := sel2\<rparr>, bag2)"
      using True sc(1) Lifted f(1) by (simp add: multisetSelect_def)
    ultimately show ?thesis by blast
  qed
qed

lemma multisetComplex_first:
  assumes m: "multisetComplex r bag sol True = Some (Inr (ok, sel', bag'))"
    and len: "length (selection r) = length bag" and z: "allZero (selection r)"
    and sz: "0 \<le> currentSize r" "currentSize r \<le> sumCap (selection r)"
  shows "length bag' = length bag \<and> sameShape (selection r) sel' \<and>
         putBack (coeff r) sel' bag' = putBack (coeff r) (selection r) bag \<and>
         (if ok then selOK sel' \<and> sumExtra sel' = currentSize r else allZero sel')"
proof -
  from m obtain p where p: "forwardsComplex sol (coeff r) (currentSize r) (selection r) bag = Inr p"
    by (auto simp: multisetComplex_def split: sum.splits)
  from forwardsComplex_spec[OF p len allZero_roomFor[OF z sz(2)]]
  have pl: "placedOK (coeff r) (currentSize r) (selection r) bag (placingSel p) (placingBag p)" .
  note zz = allZero_selOK[OF z]
  from pl zz sz have a: "length (placingBag p) = length bag" "sameShape (selection r) (placingSel p)"
    "putBack (coeff r) (placingSel p) (placingBag p) = putBack (coeff r) (selection r) bag"
    "sumExtra (placingSel p) = currentSize r" "selOK (placingSel p)"
    by (auto simp: placedOK_def)
  show ?thesis
  proof (cases p)
    case (Placed sel1 bag1)
    with m p have "ok = True" "sel' = sel1" "bag' = bag1" by (auto simp: multisetComplex_def)
    then show ?thesis using a Placed by simp
  next
    case (Stuck sel1 bag1)
    with m p have l: "backtrackLoop sol (coeff r) sel1 bag1 = Some (Inr (ok, sel', bag'))"
      by (auto simp: multisetComplex_def)
    have l1: "length sel1 = length bag1" using a(1,2) Stuck len sameShape_length by fastforce
    from backtrackLoop_spec[OF l l1] a Stuck
    have r: "retryOK (coeff r) sel1 bag1 ok sel' bag'" by simp
    have sh: "sameShape (selection r) sel'" using r a(2) Stuck by (auto simp: retryOK_def dest: sameShape_trans)
    show ?thesis
    proof (cases ok)
      case True
      then show ?thesis using r a Stuck sh by (auto simp: retryOK_def)
    next
      case False
      then have "\<forall>x\<in>set sel'. extra x = 0" using r by (simp add: retryOK_def)
      from sameShape_zero[OF sh zz[THEN conjunct1] this]
      show ?thesis using False r a Stuck sh by (auto simp: retryOK_def)
    qed
  qed
qed

lemma multisetComplex_retry:
  assumes m: "multisetComplex r bag sol False = Some (Inr (ok, sel', bag'))"
    and len: "length (selection r) = length bag" and sok: "selOK (selection r)"
    and sz: "sumExtra (selection r) = currentSize r"
  shows "retryOK (coeff r) (selection r) bag ok sel' bag'"
proof (cases "currentSize r > 0")
  case True
  with m have "backtrackLoop sol (coeff r) (selection r) bag = Some (Inr (ok, sel', bag'))"
    by (simp add: multisetComplex_def)
  from backtrackLoop_spec[OF this len sok] show ?thesis .
next
  case False
  then have "\<forall>x\<in>set (selection r). extra x = 0" using zero_extras[OF sok] sz by simp
  moreover from m False have "ok = False" "sel' = selection r" "bag' = bag"
    by (auto simp: multisetComplex_def)
  ultimately show ?thesis by (simp add: retryOK_def)
qed

lemma basesNonneg_simps [simp]: "basesNonneg []" "basesNonneg (s # ss) \<longleftrightarrow> 0 \<le> base s \<and> basesNonneg ss"
  by (auto simp: basesNonneg_def)

lemma basesZero_simps [simp]: "basesZero []" "basesZero (s # ss) \<longleftrightarrow> base s = 0 \<and> basesZero ss"
  by (auto simp: basesZero_def)

lemma basesZero_nonneg: "basesZero sel \<Longrightarrow> basesNonneg sel \<and> sumBase sel = 0"
  by (induction sel) auto

lemma basesNonneg_map: "basesNonneg sel \<longleftrightarrow> (\<forall>b\<in>set (map base sel). 0 \<le> b)"
  by (simp add: basesNonneg_def)

lemma basesZero_map: "basesZero sel \<longleftrightarrow> (\<forall>b\<in>set (map base sel). b = 0)"
  by (simp add: basesZero_def)

lemma sameShape_bases:
  "sameShape sel sel' \<Longrightarrow> (basesNonneg sel' \<longleftrightarrow> basesNonneg sel) \<and> (basesZero sel' \<longleftrightarrow> basesZero sel)"
  unfolding basesNonneg_map basesZero_map sameShape_def by simp

lemma capacities_spec:
  assumes "length sel = length bag" "c > 0"
  shows "\<exists>sel'. capacities c sel bag = Inr (sel', sum_list bag, sumCap sel') \<and>
           map base sel' = map base sel \<and> allZero sel' \<and> length sel' = length sel"
  using assms
proof (induction c sel bag rule: capacities.induct)
  case (1 c s ss b bs)
  then obtain ss' where ss': "capacities c ss bs = Inr (ss', sum_list bs, sumCap ss')"
     "map base ss' = map base ss" "allZero ss'" "length ss' = length ss" by auto
  show ?case
  proof (cases "b \<ge> c")
    case True
    then have "0 \<le> b div c" using "1.prems"(2) by (simp add: pos_imp_zdiv_nonneg_iff)
    then show ?thesis using ss' True by (simp add: algebra_simps)
  next
    case False
    then show ?thesis using ss' by (simp add: algebra_simps)
  qed
next
  case (2 c sel)
  then show ?case by simp
next
  case (3 c b bs)
  then show ?case by simp
qed

lemma bases_spec:
  assumes "bases sol sel bag = Inr (sel', T, mn, mx)" "length sel = length bag" "tableSane sol"
  shows "T = sum_list bag \<and> mn = sumBase sel' \<and> mx = sumBase sel' + sumCap sel' \<and>
         length sel' = length sel \<and> allZero sel' \<and> basesNonneg sel'"
  using assms
proof (induction sol sel bag arbitrary: sel' T mn mx rule: bases.induct)
  case (1 sol s ss b bs)
  from "1.prems"(1) obtain en where en: "readSoluble sol b = Inr en"
    by (auto split: sum.splits)
  from "1.prems"(1) en have ok: "min_s en \<noteq> INSOLUBLE" "max_s en \<noteq> INSOLUBLE" "min_s en \<le> max_s en"
    by (auto split: if_splits)
  from "1.prems"(1) en ok obtain ss' T1 mn1 mx1 where
    r: "bases sol ss bs = Inr (ss', T1, mn1, mx1)"
       "sel' = s\<lparr>base := min_s en, extra := 0, maxExtra := max_s en - min_s en\<rparr> # ss'"
       "T = T1 + b" "mn = mn1 + min_s en" "mx = mx1 + max_s en"
    by (auto split: sum.splits)
  from readSoluble_Inr[OF en] have "en \<in> set sol" by (auto intro: nth_mem)
  then have nn: "0 \<le> min_s en" using "1.prems"(3) ok(1) by (auto simp: tableSane_def)
  have len: "length ss = length bs" using "1.prems"(2) by simp
  from "1.IH"[OF en _ _ _ r(1) len "1.prems"(3)] ok
  have ih: "T1 = sum_list bs \<and> mn1 = sumBase ss' \<and> mx1 = sumBase ss' + sumCap ss' \<and>
         length ss' = length ss \<and> allZero ss' \<and> basesNonneg ss'" by simp
  then show ?case using r nn ok by simp
next
  case (2 sol sel)
  then show ?case by simp
next
  case (3 sol b bs)
  then show ?case by simp
qed

lemma subtractBases_spec:
  assumes "subtractBases c sel bag = Inr bag'" "length sel = length bag" "basesNonneg sel" "allZero sel"
  shows "length bag' = length bag \<and> putBack c sel bag' = bag"
  using assms
proof (induction c sel bag arbitrary: bag' rule: subtractBases.induct)
  case (1 c s ss b bs)
  from "1.prems" have s: "0 \<le> base s" "extra s = 0" "basesNonneg ss" "allZero ss" "length ss = length bs"
    by auto
  show ?case
  proof (cases "base s > 0")
    case True
    with "1.prems"(1) obtain bs' where r: "subtractBases c ss bs = Inr bs'" "bag' = (b - base s * c) # bs'"
      by (auto split: sum.splits if_splits)
    from "1.prems"(1) True have nf: "\<not> \<not> 0 \<le> b - base s * c" by (auto split: if_splits)
    from "1.IH"(1)[OF True nf r(1) s(5,3,4)] show ?thesis using r(2) s by simp
  next
    case False
    with "1.prems"(1) obtain bs' where r: "subtractBases c ss bs = Inr bs'" "bag' = b # bs'"
      by (auto split: sum.splits if_splits)
    from "1.IH"(2)[OF False r(1) s(5,3,4)] show ?thesis using r(2) s False by simp
  qed
next
  case (2 c sel)
  then show ?case by simp
next
  case (3 c b bs)
  then show ?case by simp
qed

lemma restoreBases_spec:
  assumes "restoreBases mcv c sel bag = Inr bag'" "length sel = length bag" "basesNonneg sel"
    "\<forall>x\<in>set sel. extra x = 0"
  shows "bag' = putBack c sel bag"
  using assms
proof (induction mcv c sel bag arbitrary: bag' rule: restoreBases.induct)
  case (1 mcv c s ss b bs)
  from "1.prems" have s: "0 \<le> base s" "extra s = 0" "basesNonneg ss" "\<forall>x\<in>set ss. extra x = 0"
     "length ss = length bs"
    by auto
  show ?case
  proof (cases "base s > 0")
    case True
    with "1.prems"(1) obtain bs' where r: "restoreBases mcv c ss bs = Inr bs'" "bag' = (b + base s * c) # bs'"
      by (auto split: sum.splits if_splits)
    from "1.prems"(1) True have nf: "\<not> \<not> b + base s * c \<le> mcv" by (auto split: if_splits)
    from "1.IH"(1)[OF True nf r(1) s(5,3,4)] show ?thesis using r(2) s by simp
  next
    case False
    with "1.prems"(1) obtain bs' where r: "restoreBases mcv c ss bs = Inr bs'" "bag' = b # bs'"
      by (auto split: sum.splits if_splits)
    from "1.IH"(2)[OF False r(1) s(5,3,4)] show ?thesis using r(2) s False by simp
  qed
next
  case (2 mcv c sel)
  then show ?case by simp
next
  case (3 mcv c b bs)
  then show ?case by simp
qed

text \<open>the loop over the sizes\<close>

lemma sizeLoop_spec:
  assumes "sizeLoop sol r bag = Some (Inr (ok, r', bag'))"
    and "length (selection r) = length bag" and "allZero (selection r)"
    and "0 \<le> currentSize r" and "currentMaxSize r \<le> sumCap (selection r)"
  shows "\<exists>sel' k. r' = r\<lparr>selection := sel', currentSize := k\<rparr> \<and> currentSize r \<le> k \<and>
           length bag' = length bag \<and> sameShape (selection r) sel' \<and>
           putBack (coeff r) sel' bag' = putBack (coeff r) (selection r) bag \<and>
           (if ok then k \<le> currentMaxSize r \<and> selOK sel' \<and> sumExtra sel' = k else allZero sel')"
  using assms
proof (induction sol r bag rule: sizeLoop.induct)
  case (1 sol r bag)
  show ?case
  proof (cases "currentSize r \<le> currentMaxSize r")
    case False
    with "1.prems"(1) have "ok = False" "r' = r" "bag' = bag"
      by (subst (asm) sizeLoop.simps, simp)+
    then show ?thesis using "1.prems"(3)
      by (intro exI[of _ "selection r"] exI[of _ "currentSize r"]) simp
  next
    case True
    from "1.prems"(1) True obtain ok1 sel1 bag1 where
      m: "multisetComplex r bag sol True = Some (Inr (ok1, sel1, bag1))"
      by (subst (asm) sizeLoop.simps) (auto split: option.splits sum.splits)
    have sz: "currentSize r \<le> sumCap (selection r)" using True "1.prems"(5) by simp
    from multisetComplex_first[OF m "1.prems"(2,3,4) sz]
    have a: "length bag1 = length bag" "sameShape (selection r) sel1"
         "putBack (coeff r) sel1 bag1 = putBack (coeff r) (selection r) bag"
         "if ok1 then selOK sel1 \<and> sumExtra sel1 = currentSize r else allZero sel1" by auto
    show ?thesis
    proof (cases ok1)
      case ok1: True
      with "1.prems"(1) True m have "ok = True" "r' = r\<lparr>selection := sel1\<rparr>" "bag' = bag1"
        by (subst (asm) sizeLoop.simps, simp)+
      then show ?thesis using a ok1 True
        by (intro exI[of _ sel1] exI[of _ "currentSize r"]) simp
    next
      case ok1: False
      let ?r1 = "r\<lparr>selection := sel1, currentSize := currentSize r + 1\<rparr>"
      from "1.prems"(1) True m ok1 have l: "sizeLoop sol ?r1 bag1 = Some (Inr (ok, r', bag'))"
        by (subst (asm) sizeLoop.simps) simp
      have l1: "length (selection ?r1) = length bag1"
        using a(1,2) "1.prems"(2) sameShape_length by fastforce
      have z1: "allZero (selection ?r1)" using a(4) ok1 by simp
      have c1: "0 \<le> currentSize ?r1" using "1.prems"(4) by simp
      have m1: "currentMaxSize ?r1 \<le> sumCap (selection ?r1)"
        using "1.prems"(5) sameShape_sums[OF a(2)] by simp
      from "1.IH"[OF True m refl refl refl ok1 l l1 z1 c1 m1]
      obtain sel' k where r: "r' = ?r1\<lparr>selection := sel', currentSize := k\<rparr>" "currentSize ?r1 \<le> k"
         "length bag' = length bag1" "sameShape (selection ?r1) sel'"
         "putBack (coeff ?r1) sel' bag' = putBack (coeff ?r1) (selection ?r1) bag1"
         "if ok then k \<le> currentMaxSize ?r1 \<and> selOK sel' \<and> sumExtra sel' = k else allZero sel'"
        by auto
      have "sameShape (selection r) sel'" using a(2) r(4) sameShape_trans by fastforce
      then show ?thesis using r a
        by (intro exI[of _ sel'] exI[of _ k]) auto
    qed
  qed
qed

lemma rest_fields:
  assumes "rest s = rest p"
  shows "complex s = complex p" "closed s = closed p" "failed s = failed p"
    "maxColumnValue s = maxColumnValue p" "columnSum s = columnSum p" "rowPermute s = rowPermute p"
proof -
  have "complex (rest s) = complex (rest p)" "closed (rest s) = closed (rest p)"
    "failed (rest s) = failed (rest p)" "maxColumnValue (rest s) = maxColumnValue (rest p)"
    "columnSum (rest s) = columnSum (rest p)" "rowPermute (rest s) = rowPermute (rest p)"
    using assms by simp_all
  then show "complex s = complex p" "closed s = closed p" "failed s = failed p"
    "maxColumnValue s = maxColumnValue p" "columnSum s = columnSum p" "rowPermute s = rowPermute p"
    by (simp_all add: rest_def)
qed

lemma rest_setRow [simp]: "rest (setRow i r s) = rest s" "rest (s\<lparr>columns := b\<rparr>) = rest s"
  by (simp_all add: rest_def setRow_def)

lemma setRow_fields [simp]: "rows (setRow i r s) = (rows s)[i := r]" "columns (setRow i r s) = columns s"
  "complex (setRow i r s) = complex s" "maxColumnValue (setRow i r s) = maxColumnValue s"
  by (simp_all add: setRow_def)

lemma activeRows_snoc:
  "activeRows (rs @ [r]) bag \<longleftrightarrow> activeRows rs (before r bag) \<and> rowActive r (before r bag)"
  by (induction rs) auto

lemma length_before: "length (selection r) = length bag \<Longrightarrow> length (before r bag) = length bag"
  by (simp add: before_def putBack_def)

lemma take_Suc_update: "k < length xs \<Longrightarrow> take (Suc k) (xs[k := x]) = take k xs @ [x]"
  by (simp add: take_Suc_conv_app_nth)

lemma frozen_update_map:
  "k < length xs \<Longrightarrow> frozen x = frozen (xs ! k) \<Longrightarrow> map frozen (xs[k := x]) = map frozen xs"
  by (simp add: map_update list_update_same_conv)

lemma last_update: "Suc k < length xs \<Longrightarrow> last (xs[k := x]) = last xs"
proof -
  assume a: "Suc k < length xs"
  then have "xs \<noteq> []" by auto
  moreover have "k \<noteq> length xs - 1" using a by linarith
  ultimately show ?thesis by (simp add: last_list_update)
qed

lemma Inv_stepped:
  assumes inv: "Inv k p s" and st: "stepped i s s' r'" and i: "Suc i < length (rows s)"
  shows "length (rows s') = length (rows s)" "map frozen (rows s') = map frozen (rows p)"
    "rest s' = rest p" "\<forall>r\<in>set (rows s'). length (selection r) = length (columns p)"
    "\<not> complex p \<longrightarrow> (\<forall>r\<in>set (rows s'). basesZero (selection r))"
    "basesZero (selection (last (rows s')))" "take i (rows s') = take i (rows s)"
    "take (Suc i) (rows s') = take i (rows s) @ [r']"
proof -
  from st have r: "rows s' = (rows s)[i := r']" "frozen r' = frozen (rows s ! i)"
     "length (selection r') = length (selection (rows s ! i))" "rest s' = rest s"
     "\<not> complex s \<longrightarrow> basesZero (selection (rows s ! i)) \<longrightarrow> basesZero (selection r')"
    by (auto simp: stepped_def)
  have cx: "complex s = complex p" by (rule rest_fields(1)) (use inv in \<open>simp add: Inv_def\<close>)
  have i': "i < length (rows s)" using i by simp
  show "length (rows s') = length (rows s)" using r(1) by simp
  show "map frozen (rows s') = map frozen (rows p)"
    using inv r(1,2) frozen_update_map[OF i'] by (simp add: Inv_def)
  show "rest s' = rest p" using inv r(4) by (simp add: Inv_def)
  have mem: "rows s ! i \<in> set (rows s)" using i' by simp
  show "\<forall>r\<in>set (rows s'). length (selection r) = length (columns p)"
  proof
    fix x assume "x \<in> set (rows s')"
    then have "x \<in> insert r' (set (rows s))" using r(1) set_update_subset_insert by fastforce
    then show "length (selection x) = length (columns p)"
      using inv r(3) mem by (auto simp: Inv_def)
  qed
  show "\<not> complex p \<longrightarrow> (\<forall>r\<in>set (rows s'). basesZero (selection r))"
  proof (intro impI ballI)
    fix x assume nc: "\<not> complex p" and "x \<in> set (rows s')"
    then have "x \<in> insert r' (set (rows s))" using r(1) set_update_subset_insert by fastforce
    then show "basesZero (selection x)"
      using inv r(5) mem nc cx by (auto simp: Inv_def)
  qed
  show "basesZero (selection (last (rows s')))"
    using inv r(1) last_update[OF i] by (simp add: Inv_def)
  show "take i (rows s') = take i (rows s)" using r(1) by simp
  show "take (Suc i) (rows s') = take i (rows s) @ [r']" using r(1) take_Suc_update[OF i'] by simp
qed

lemma Inv_first_True:
  assumes inv: "Inv k p s" and st: "stepFirstOK k s True s'" and k: "Suc k < length (rows s)"
  shows "Inv (Suc k) p s'"
proof -
  from st obtain r' where r': "stepped k s s' r'" "rowActive r' (columns s)"
     "before r' (columns s') = columns s" "length (columns s') = length (columns s)"
    by (auto simp: stepFirstOK_def)
  note f = Inv_stepped[OF inv r'(1) k]
  have a: "activeRows (take (Suc k) (rows s')) (columns s')"
    using inv r'(2,3) unfolding f(8) activeRows_snoc by (simp add: Inv_def)
  have b: "foldr before (take (Suc k) (rows s')) (columns s') = columns p"
    using inv r'(3) unfolding f(8) by (simp add: Inv_def)
  show ?thesis unfolding Inv_def using f(1-6) a b k r'(4) inv by (simp add: Inv_def)
qed

lemma Inv_first_False:
  assumes inv: "Inv k p s" and st: "stepFirstOK k s False s'" and k: "Suc k < length (rows s)"
  shows "Inv k p s'"
proof -
  from st obtain r' where r': "stepped k s s' r'" "columns s' = columns s"
    by (auto simp: stepFirstOK_def)
  note f = Inv_stepped[OF inv r'(1) k]
  show ?thesis unfolding Inv_def using f(1-7) k r'(2) inv by (simp add: Inv_def)
qed

lemma Inv_retry_parts:
  assumes inv: "Inv (Suc k) p s"
  shows "activeRows (take k (rows s)) (before (rows s ! k) (columns s))"
    "rowActive (rows s ! k) (before (rows s ! k) (columns s))"
    "foldr before (take k (rows s)) (before (rows s ! k) (columns s)) = columns p"
proof -
  have k: "k < length (rows s)" using inv by (simp add: Inv_def)
  have t: "take (Suc k) (rows s) = take k (rows s) @ [rows s ! k]"
    using k by (simp add: take_Suc_conv_app_nth)
  from inv have "activeRows (take (Suc k) (rows s)) (columns s)"
     "foldr before (take (Suc k) (rows s)) (columns s) = columns p" by (simp_all add: Inv_def)
  then show "activeRows (take k (rows s)) (before (rows s ! k) (columns s))"
    "rowActive (rows s ! k) (before (rows s ! k) (columns s))"
    "foldr before (take k (rows s)) (before (rows s ! k) (columns s)) = columns p"
    unfolding t activeRows_snoc by simp_all
qed

lemma Inv_retry_True:
  assumes inv: "Inv (Suc k) p s" and st: "stepRetryOK k s True s'"
  shows "Inv (Suc k) p s'"
proof -
  have k: "Suc k < length (rows s)" using inv by (simp add: Inv_def)
  let ?B = "before (rows s ! k) (columns s)"
  from st obtain r' where r': "stepped k s s' r'" "rowActive r' ?B"
     "before r' (columns s') = ?B" "length (columns s') = length (columns s)"
    by (auto simp: stepRetryOK_def)
  note f = Inv_stepped[OF inv r'(1) k]
  note q = Inv_retry_parts[OF inv]
  have a: "activeRows (take (Suc k) (rows s')) (columns s')"
    using q(1) r'(2,3) unfolding f(8) activeRows_snoc by simp
  have b: "foldr before (take (Suc k) (rows s')) (columns s') = columns p"
    using q(3) r'(3) unfolding f(8) by simp
  show ?thesis unfolding Inv_def using f(1-6) a b k r'(4) inv by (simp add: Inv_def)
qed

lemma Inv_retry_False:
  assumes inv: "Inv (Suc k) p s" and st: "stepRetryOK k s False s'"
  shows "Inv k p s'"
proof -
  have k: "Suc k < length (rows s)" using inv by (simp add: Inv_def)
  let ?B = "before (rows s ! k) (columns s)"
  from st obtain r' where r': "stepped k s s' r'" "columns s' = ?B"
    by (auto simp: stepRetryOK_def)
  note f = Inv_stepped[OF inv r'(1) k]
  note q = Inv_retry_parts[OF inv]
  have "length (selection (rows s ! k)) = length (columns s)"
    using inv k by (simp add: Inv_def)
  then have l: "length ?B = length (columns p)" using length_before inv by (simp add: Inv_def)
  show ?thesis unfolding Inv_def using f(1-7) q(1,3) k r'(2) l by simp
qed

lemma floor_bound: "0 < c \<Longrightarrow> h \<le> floorDivision x c \<Longrightarrow> h * c \<le> x"
proof -
  assume c: "0 < c" and h: "h \<le> floorDivision x c"
  have "h * c \<le> (x div c) * c" using h c by (simp add: floorDivision_def mult_right_mono)
  also have "\<dots> \<le> x" using c by (metis mult.commute pos_mod_sign mult_div_mod_eq add_increasing2 order_refl)
  finally show ?thesis .
qed

lemma ceiling_bound: "0 < c \<Longrightarrow> ceilingDivision x c \<le> l \<Longrightarrow> x \<le> l * c"
proof -
  assume c: "0 < c" and l: "ceilingDivision x c \<le> l"
  have "- l \<le> (- x) div c" using l by (simp add: ceilingDivision_def)
  then have "(- l) * c \<le> - x" using floor_bound[OF c, of "- l" "- x"] by (simp add: floorDivision_def)
  then show ?thesis by simp
qed

lemma putBack_zero:
  "length sel = length bag \<Longrightarrow> basesZero sel \<Longrightarrow> \<forall>x\<in>set sel. extra x = 0 \<Longrightarrow> putBack c sel bag = bag"
  by (induction sel bag rule: list_induct2) auto

lemma sum_list_putBack:
  "length sel = length bag \<Longrightarrow>
     sum_list (putBack c sel bag) = sum_list bag + (sumBase sel + sumExtra sel) * c"
  by (induction sel bag rule: list_induct2) (auto simp: algebra_simps)

lemma frozen_simps [simp]:
  "frozen (r\<lparr>selection := x\<rparr>) = frozen r" "frozen (r\<lparr>currentSize := y\<rparr>) = frozen r"
  "frozen (r\<lparr>currentMaxSize := z\<rparr>) = frozen r"
  by (simp_all add: frozen_def)

lemma stepped_self: "i < length (rows s) \<Longrightarrow> stepped i s s (rows s ! i)"
  by (simp add: stepped_def)

lemma stepped_setRow:
  "frozen r' = frozen (rows s ! i) \<Longrightarrow> length (selection r') = length (selection (rows s ! i)) \<Longrightarrow>
   (\<not> complex s \<longrightarrow> basesZero (selection (rows s ! i)) \<longrightarrow> basesZero (selection r')) \<Longrightarrow>
   stepped i s ((setRow i r' s)\<lparr>columns := b\<rparr>) r' \<and> stepped i s (setRow i r' s) r'"
  by (simp add: stepped_def)

lemma rowActive_retry:
  assumes a: "rowActive r B" and sh: "sameShape (selection r) sel'" and ok: "selOK sel'"
    and k: "sumExtra sel' = k" "currentSize r \<le> k" "k \<le> currentMaxSize r"
  shows "rowActive (r\<lparr>selection := sel', currentSize := k\<rparr>) B"
proof -
  note s = sameShape_sums[OF sh] sameShape_length[OF sh] sameShape_bases[OF sh]
  have c: "0 < coeff r" using a by (simp add: rowActive_def)
  have "(sumBase (selection r) + currentSize r) * coeff r \<le> (sumBase (selection r) + k) * coeff r"
    using k(2) c by (simp add: mult_right_mono)
  moreover have "sum_list B - (sumBase (selection r) + currentSize r) * coeff r \<le> maxLeave r"
    using a by (simp add: rowActive_def)
  ultimately have "sum_list B - (sumBase (selection r) + k) * coeff r \<le> maxLeave r" by linarith
  moreover have "minSize r \<le> sumBase (selection r) + k" using a k by (simp add: rowActive_def)
  ultimately show ?thesis using a s ok k unfolding rowActive_def by simp
qed

lemma solveRowSimple_first:
  assumes i: "i < length (rows s)" and len: "length (selection (rows s ! i)) = length (columns s)"
    and c: "0 < coeff (rows s ! i)" and bz: "basesZero (selection (rows s ! i))"
    and mn: "0 \<le> minSize (rows s ! i)"
  shows "\<exists>ok s'. solveRowSimple i True s = Inr (ok, s') \<and> stepFirstOK i s ok s'"
proof (cases "viable i s")
  case False
  then have "solveRowSimple i True s = Inr (False, s)" using i by (simp add: solveRowSimple_def)
  moreover have "stepFirstOK i s False s" using stepped_self[OF i] by (auto simp: stepFirstOK_def)
  ultimately show ?thesis by blast
next
  case True
  let ?r = "rows s ! i"
  from capacities_spec[OF len c] obtain sel1 where
    cap: "capacities (coeff ?r) (selection ?r) (columns s) = Inr (sel1, sum_list (columns s), sumCap sel1)"
    and b1: "map base sel1 = map base (selection ?r)" and z1: "allZero sel1"
    and l1: "length sel1 = length (selection ?r)" by blast
  have bz1: "basesZero sel1" using bz b1 unfolding basesZero_map by simp
  define T where "T = sum_list (columns s)"
  define lo where "lo = max (minSize ?r) (ceilingDivision (T - maxLeave ?r) (coeff ?r))"
  define hi where "hi = min (min (sumCap sel1) (maxSize ?r)) (floorDivision (T - minLeave ?r) (coeff ?r))"
  let ?r1 = "?r\<lparr>selection := sel1\<rparr>"
  show ?thesis
  proof (cases "lo > hi")
    case gt: True
    have "solveRowSimple i True s = Inr (False, setRow i ?r1 s)"
      using i True cap gt by (simp add: solveRowSimple_def Let_def lo_def hi_def T_def)
    moreover have "stepped i s (setRow i ?r1 s) ?r1"
      using stepped_setRow[of ?r1 s i] l1 bz1 by simp
    then have "stepFirstOK i s False (setRow i ?r1 s)" by (auto simp: stepFirstOK_def)
    ultimately show ?thesis by blast
  next
    case le: False
    let ?r2 = "?r1\<lparr>currentSize := lo, currentMaxSize := hi\<rparr>"
    have lo0: "0 \<le> lo" using mn by (simp add: lo_def)
    have hic: "hi \<le> sumCap sel1" by (simp add: hi_def)
    have rf: "roomFor (currentSize ?r2) (selection ?r2)"
      using allZero_roomFor[OF z1, of lo] le hic by simp
    have l2: "length (selection ?r2) = length (columns s)" using l1 len by simp
    from multisetSelect_first[OF l2 rf] obtain sel' bag' where
      m: "multisetSelect ?r2 (columns s) True = Inr (True, ?r2\<lparr>selection := sel'\<rparr>, bag')"
      and pl: "placedOK (coeff ?r) lo sel1 (columns s) sel' bag'" by auto
    let ?r3 = "?r2\<lparr>selection := sel'\<rparr>"
    from pl allZero_selOK[OF z1] lo0 have p: "length bag' = length (columns s)" "sameShape sel1 sel'"
       "putBack (coeff ?r) sel' bag' = putBack (coeff ?r) sel1 (columns s)" "sumExtra sel' = lo" "selOK sel'"
      by (auto simp: placedOK_def)
    note s = sameShape_sums[OF p(2)] sameShape_length[OF p(2)] sameShape_bases[OF p(2)]
    have res: "solveRowSimple i True s = Inr (True, (setRow i ?r3 s)\<lparr>columns := bag'\<rparr>)"
      using i True cap le m by (simp add: solveRowSimple_def Let_def lo_def hi_def T_def)
    have st: "stepped i s ((setRow i ?r3 s)\<lparr>columns := bag'\<rparr>) ?r3"
      using stepped_setRow[of ?r3 s i bag'] l1 s bz1 by simp
    have z: "\<forall>x\<in>set sel1. extra x = 0" using z1 by (simp add: allZero_def)
    have pb: "putBack (coeff ?r) sel1 (columns s) = columns s"
      using putBack_zero[OF _ bz1 z] l1 len by simp
    have bf: "before ?r3 bag' = columns s" using p(3) pb by (simp add: before_def)
    have sb: "sumBase sel' = 0" using s bz1 basesZero_nonneg by simp
    have f1: "hi * coeff ?r \<le> T - minLeave ?r"
      by (rule floor_bound[OF c]) (simp add: hi_def)
    have f2: "T - maxLeave ?r \<le> lo * coeff ?r"
      by (rule ceiling_bound[OF c]) (simp add: lo_def)
    have g: "minSize ?r \<le> lo" "hi \<le> maxSize ?r" by (simp_all add: lo_def hi_def)
    have bn: "basesNonneg sel'" using s bz1 basesZero_nonneg by simp
    have le': "lo \<le> hi" using le by simp
    have "rowActive ?r3 (columns s)"
      unfolding rowActive_def using p(1,4,5) s(1,2) l1 len c le' hic sb f1 f2 bn g
      by (simp add: T_def)
    then have "stepFirstOK i s True ((setRow i ?r3 s)\<lparr>columns := bag'\<rparr>)"
      using st bf p(1) unfolding stepFirstOK_def by (intro exI[of _ ?r3]) simp
    then show ?thesis using res by blast
  qed
qed

lemma sumExtra_nonneg: "selOK sel \<Longrightarrow> 0 \<le> sumExtra sel"
  by (induction sel) auto

lemma solveRowSimple_retry:
  assumes i: "i < length (rows s)" and len: "length (selection (rows s ! i)) = length (columns s)"
    and bz: "basesZero (selection (rows s ! i))"
    and act: "rowActive (rows s ! i) (before (rows s ! i) (columns s))"
  shows "\<exists>ok s'. solveRowSimple i False s = Inr (ok, s') \<and> stepRetryOK i s ok s'"
proof -
  let ?r = "rows s ! i"
  let ?B = "before ?r (columns s)"
  let ?c = "coeff ?r"
  from act have a: "selOK (selection ?r)" "sumExtra (selection ?r) = currentSize ?r"
    "currentSize ?r \<le> currentMaxSize ?r" "currentMaxSize ?r \<le> sumCap (selection ?r)" "0 < ?c"
    by (simp_all add: rowActive_def)
  from multisetSelect_retry[OF len a(1,2)] obtain ok1 sel1 bag1 where
    m: "multisetSelect ?r (columns s) False = Inr (ok1, ?r\<lparr>selection := sel1\<rparr>, bag1)"
    and rt: "retryOK ?c (selection ?r) (columns s) ok1 sel1 bag1" by blast
  from rt have q: "length bag1 = length (columns s)" "sameShape (selection ?r) sel1"
    "putBack ?c sel1 bag1 = ?B" by (simp_all add: retryOK_def before_def)
  note s1 = sameShape_sums[OF q(2)] sameShape_length[OF q(2)] sameShape_bases[OF q(2)]
  let ?r1 = "?r\<lparr>selection := sel1\<rparr>"
  have bz1: "basesZero sel1" using s1 bz by simp
  show ?thesis
  proof (cases ok1)
    case True
    then have sok: "selOK sel1" "sumExtra sel1 = currentSize ?r" using rt a(2) by (simp_all add: retryOK_def)
    have "rowActive (?r\<lparr>selection := sel1, currentSize := currentSize ?r\<rparr>) ?B"
      by (rule rowActive_retry[OF act q(2) sok(1) sok(2) order_refl a(3)])
    then have ra: "rowActive ?r1 ?B" by simp
    have res: "solveRowSimple i False s = Inr (True, (setRow i ?r1 s)\<lparr>columns := bag1\<rparr>)"
      using i m True by (simp add: solveRowSimple_def Let_def)
    have st: "stepped i s ((setRow i ?r1 s)\<lparr>columns := bag1\<rparr>) ?r1"
      using stepped_setRow[of ?r1 s i bag1] s1 bz1 by simp
    have "stepRetryOK i s True ((setRow i ?r1 s)\<lparr>columns := bag1\<rparr>)"
      unfolding stepRetryOK_def using st ra q(1,3) by (intro exI[of _ ?r1]) (simp add: before_def)
    then show ?thesis using res by blast
  next
    case False
    then have z: "\<forall>x\<in>set sel1. extra x = 0" using rt by (simp add: retryOK_def)
    have l1: "length sel1 = length bag1" using s1 len q(1) by simp
    have b1: "bag1 = ?B" using putBack_zero[OF l1 bz1 z] q(3) by simp
    have z1: "allZero sel1" by (rule sameShape_zero[OF q(2) a(1) z])
    show ?thesis
    proof (cases "currentSize ?r = currentMaxSize ?r")
      case eq: True
      have res: "solveRowSimple i False s = Inr (False, (setRow i ?r1 s)\<lparr>columns := bag1\<rparr>)"
        using i m False eq by (simp add: solveRowSimple_def Let_def)
      have st: "stepped i s ((setRow i ?r1 s)\<lparr>columns := bag1\<rparr>) ?r1"
        using stepped_setRow[of ?r1 s i bag1] s1 bz1 by simp
      have "stepRetryOK i s False ((setRow i ?r1 s)\<lparr>columns := bag1\<rparr>)"
        unfolding stepRetryOK_def using st b1 by (intro exI[of _ ?r1]) simp
      then show ?thesis using res by blast
    next
      case ne: False
      let ?k = "currentSize ?r + 1"
      let ?r2 = "?r1\<lparr>currentSize := ?k\<rparr>"
      have kk: "?k \<le> currentMaxSize ?r" using ne a(3) by simp
      have cs0: "0 \<le> currentSize ?r" using sumExtra_nonneg[OF a(1)] a(2) by simp
      have rf: "roomFor (currentSize ?r2) (selection ?r2)"
        using allZero_roomFor[OF z1, of ?k] kk a(4) s1 by simp
      have l2: "length (selection ?r2) = length bag1" using l1 by simp
      from multisetSelect_first[OF l2 rf] obtain sel3 bag3 where
        m3: "multisetSelect ?r2 bag1 True = Inr (True, ?r2\<lparr>selection := sel3\<rparr>, bag3)"
        and pl: "placedOK ?c ?k sel1 bag1 sel3 bag3" by auto
      let ?r3 = "?r2\<lparr>selection := sel3\<rparr>"
      from pl allZero_selOK[OF z1] cs0 have p: "length bag3 = length bag1" "sameShape sel1 sel3"
        "putBack ?c sel3 bag3 = putBack ?c sel1 bag1" "sumExtra sel3 = ?k" "selOK sel3"
        by (auto simp: placedOK_def)
      have sh: "sameShape (selection ?r) sel3" using sameShape_trans[OF q(2) p(2)] .
      note s3 = sameShape_sums[OF sh] sameShape_length[OF sh] sameShape_bases[OF sh]
      have "rowActive (?r\<lparr>selection := sel3, currentSize := ?k\<rparr>) ?B"
        by (rule rowActive_retry[OF act sh p(5) p(4) _ kk]) simp
      then have ra: "rowActive ?r3 ?B" by (simp add: rowActive_def)
      have res: "solveRowSimple i False s = Inr (True, (setRow i ?r3 s)\<lparr>columns := bag3\<rparr>)"
        using i m False ne m3 by (simp add: solveRowSimple_def Let_def)
      have st: "stepped i s ((setRow i ?r3 s)\<lparr>columns := bag3\<rparr>) ?r3"
        using stepped_setRow[of ?r3 s i bag3] s3 bz by simp
      have "stepRetryOK i s True ((setRow i ?r3 s)\<lparr>columns := bag3\<rparr>)"
        unfolding stepRetryOK_def using st ra p(1,3) q(1,3)
        by (intro exI[of _ ?r3]) (simp add: before_def)
      then show ?thesis using res by blast
    qed
  qed
qed

text \<open>The loops that may not return are run on concrete systems through their
  unfolding equations.\<close>

declare backtrackLoop.simps [code]

declare solveSimpleLoop.simps [code]

declare solveComplexLoop.simps [code]

section \<open>The scenario of one row \<open>(3, 1, 1)\<close> and one column \<open>6\<close>\<close>

text \<open>Claim C9, as stated, fails: for the row inserted as \<^verbatim>\<open>insertRow(3, 1, 1)\<close> and the
  column inserted as \<^verbatim>\<open>insertColumn(6)\<close> the first \<^verbatim>\<open>solve()\<close> does not return
  true. It returns false from the check of the totals in \<^verbatim>\<open>precompute\<close> (the sum of
  the maxProducts is 3, the column sum is 6), with the state shown.\<close>

theorem scenario_3_1_1_first_solve:
  "solve (projr (declare_system [(3, 1, 1)] [6])) =
     Some (Inr (False,
       \<lparr>rows = [\<lparr>name = 0, coeff = 3, minSize = 1, maxSize = 1, minProduct = 3, maxProduct = 3,
                  minLeave = 0, maxLeave = 0, currentSize = 0, currentMaxSize = 0,
                  selection = [], soluble = []\<rparr>],
        columns = [6], rowPermute = [], columnSum = 6, maxColumnValue = 6,
        closed = True, complex = False, failed = True\<rparr>))"
  by code_simp

text \<open>Claim C9, amended: for that input the declaration succeeds and the first
  \<^verbatim>\<open>solve()\<close> returns false and sets \<open>failed\<close>; the system is closed but never
  classified (the \<open>complex\<close> flag stays false), and no selection is made, so no
  solution is produced.\<close>

theorem scenario_3_1_1_rejected:
  "(case declare_system [(3, 1, 1)] [6] of
      Inl e \<Rightarrow> False
    | Inr s \<Rightarrow>
        (case solve s of
           Some (Inr (ok, s')) \<Rightarrow>
             \<not> ok \<and> failed s' \<and> closed s' \<and> \<not> complex s' \<and>
             sum_list (map maxProduct (rows s')) = 3 \<and> columnSum s' = 6 \<and>
             map selection (rows s') = [[]]
         | _ \<Rightarrow> False))"
  by code_simp

section \<open>The order of the rows after the first solve\<close>

text \<open>Claim C4 at a concrete system: the rows inserted as \<^verbatim>\<open>insertRow(1, 0, 2)\<close> and
  \<^verbatim>\<open>insertRow(3, 0, 2)\<close> with the column \<^verbatim>\<open>insertColumn(4)\<close>. After the first
  \<^verbatim>\<open>solve()\<close>, which returns true, the rows stand in ascending order of their
  coefficients (1 before 3) and \<open>rowPermute\<close> is the identity: \<open>rowLt\<close> holds of a
  row with the smaller coefficient, and the sort puts such a row first.\<close>

theorem rows_ascending_after_solve:
  "(case declare_system [(1, 0, 2), (3, 0, 2)] [4] of
      Inl e \<Rightarrow> False
    | Inr s \<Rightarrow>
        (case solve s of
           Some (Inr (ok, s')) \<Rightarrow>
             ok \<and> map coeff (rows s') = [1, 3] \<and> map name (rows s') = [0, 1] \<and>
             rowPermute s' = [0, 1]
         | _ \<Rightarrow> False))"
  by code_simp

section \<open>The classification of a system\<close>

text \<open>Claim C5 at a concrete system: the rows inserted as \<^verbatim>\<open>insertRow(1, 0, 5)\<close> and
  \<^verbatim>\<open>insertRow(2, 0, 5)\<close> with the column \<^verbatim>\<open>insertColumn(3)\<close>. The totals pass and
  the first row has coefficient 1 and a maximal size 5 that is at least the largest column
  value 3, yet the first \<^verbatim>\<open>solve()\<close> classifies the system as complex: the row that
  the sort puts last is the one of coefficient 2.\<close>

theorem unit_row_classified_complex:
  "(case declare_system [(1, 0, 5), (2, 0, 5)] [3] of
      Inl e \<Rightarrow> False
    | Inr s \<Rightarrow>
        (case solve s of
           Some (Inr (ok, s')) \<Rightarrow>
             ok \<and> complex s' \<and> map coeff (rows s') = [1, 2] \<and>
             map maxSize (rows s') = [5, 5] \<and> maxColumnValue s' = 3 \<and>
             map (length \<circ> soluble) (rows s') = [4, 4]
         | _ \<Rightarrow> False))"
  by code_simp

end
